theory Spec2Isabelle
  imports Main "HOL-Library.Word" "HOL-Library.Signed_Division"
begin

unbundle bit_operations_syntax

section \<open>Machine types of the MIPS32 target\<close>

text \<open>
  The repository targets 32-bit MIPS Linux (\<^verbatim>\<open>backtrace_mips32\<close> reads \<^verbatim>\<open>$ra\<close> and
  \<^verbatim>\<open>$sp\<close> and walks 32-bit instruction words through \<^verbatim>\<open>unsigned long *\<close>). On that
  ABI \<^verbatim>\<open>int\<close>, \<^verbatim>\<open>long\<close>, \<^verbatim>\<open>time_t\<close>, \<^verbatim>\<open>size_t\<close> and pointers are 32 bits wide and
  \<^verbatim>\<open>int64_t\<close> is \<^verbatim>\<open>long long\<close>. Signed types are words read through \<open>sint\<close> and
  compared with \<open><s\<close> and \<open>\<le>s\<close>; arithmetic wraps. For signed types, where ISO C
  leaves overflow undefined, this is the two's complement result that the MIPS
  instructions give.
\<close>

type_synonym long = "32 word"
type_synonym size_t = "32 word"
type_synonym int64_t = "64 word"

section \<open>measure.c: difference of two time values\<close>

record timespec =
  tv_sec :: long
  tv_nsec :: long

text \<open>
  \<^verbatim>\<open>measure_diff\<close> works through three pointers that may alias (the header allows
  \<^verbatim>\<open>end == result\<close>, \<^verbatim>\<open>timer_remaining\<close> passes \<^verbatim>\<open>start == result\<close>). The model keeps
  the pointed-to structs in a store \<open>h\<close> indexed by pointer and performs the field
  assignments one by one, in the order of the source.
\<close>

definition set_tv_sec :: "('p \<Rightarrow> timespec) \<Rightarrow> 'p \<Rightarrow> long \<Rightarrow> ('p \<Rightarrow> timespec)" where
  "set_tv_sec h p v = h(p := (h p)\<lparr>tv_sec := v\<rparr>)"

definition set_tv_nsec :: "('p \<Rightarrow> timespec) \<Rightarrow> 'p \<Rightarrow> long \<Rightarrow> ('p \<Rightarrow> timespec)" where
  "set_tv_nsec h p v = h(p := (h p)\<lparr>tv_nsec := v\<rparr>)"

definition measure_diff :: "('p \<Rightarrow> timespec) \<Rightarrow> 'p \<Rightarrow> 'p \<Rightarrow> 'p \<Rightarrow> ('p \<Rightarrow> timespec)" where
  "measure_diff h start end result =
     (let h1 = set_tv_sec h result (tv_sec (h end) - tv_sec (h start));
          h2 = set_tv_nsec h1 result (tv_nsec (h1 end) - tv_nsec (h1 start))
      in if tv_nsec (h2 result) <s 0
         then (let h3 = set_tv_nsec h2 result (tv_nsec (h2 result) + 1000000000)
               in set_tv_sec h3 result (tv_sec (h3 result) - 1))
         else h2)"

section \<open>timer.c: deadlines on the monotonic clock\<close>

definition NANOSECONDS_IN_SECOND :: long where
  "NANOSECONDS_IN_SECOND = 1000000000"

definition NANOSECONDS_IN_MILLISECOND :: long where
  "NANOSECONDS_IN_MILLISECOND = 1000000"

definition MILLISECONDS_IN_SECOND :: long where
  "MILLISECONDS_IN_SECOND = 1000"

definition STATUS_VALID :: "32 word" where
  "STATUS_VALID = push_bit 0 1"

definition STATUS_INITIALIZED :: "32 word" where
  "STATUS_INITIALIZED = push_bit 1 1"

text \<open>The mutex of \<^verbatim>\<open>struct timer\<close> plays no part in the unlocked functions and is left out.\<close>

record timer =
  status :: "32 word"
  start :: timespec
  deadline :: timespec

definition valid :: "timer \<Rightarrow> 32 word" where
  "valid t = status t AND STATUS_VALID"

definition timespec_cmp :: "timespec \<Rightarrow> timespec \<Rightarrow> int" where
  "timespec_cmp a b =
     (if tv_sec a = tv_sec b
      then (if tv_nsec a = tv_nsec b then 0
            else if tv_nsec b <s tv_nsec a then 1
            else - 1)
      else if tv_sec b <s tv_sec a then 1
      else - 1)"

text \<open>
  C division of two \<^verbatim>\<open>long\<close> values truncates towards zero (\<open>sdiv\<close> on \<open>int\<close>).
  In \<^verbatim>\<open>timespec_to_ms\<close> both operands of the product are \<^verbatim>\<open>long\<close>, so the product is
  a 32-bit one and is widened to \<^verbatim>\<open>int64_t\<close> only afterwards (\<open>scast\<close>).
\<close>

definition long_div :: "long \<Rightarrow> long \<Rightarrow> long" where
  "long_div a b = word_of_int (sint a sdiv sint b)"

definition timespec_to_ms :: "timespec \<Rightarrow> int64_t" where
  "timespec_to_ms t =
     (let result = (scast (tv_sec t * MILLISECONDS_IN_SECOND) :: int64_t)
      in result + scast (long_div (tv_nsec t) NANOSECONDS_IN_MILLISECOND))"

text \<open>
  \<^verbatim>\<open>clock_gettime(CLOCK_MONOTONIC, &diff)\<close> is the parameter \<open>now\<close>. The local \<^verbatim>\<open>diff\<close>
  and the timer's fields are the cells of a small store, so that the calls
  \<^verbatim>\<open>measure_diff(&diff, &timer->deadline, &diff)\<close> and
  \<^verbatim>\<open>measure_diff(&timer->start, &diff, &diff)\<close> keep their aliasing.
\<close>

datatype timer_cell = Diff | Start | Deadline

definition timer_store :: "timer \<Rightarrow> timespec \<Rightarrow> timer_cell \<Rightarrow> timespec" where
  "timer_store t now c = (case c of Diff \<Rightarrow> now | Start \<Rightarrow> start t | Deadline \<Rightarrow> deadline t)"

definition timer_remaining :: "timer \<Rightarrow> timespec \<Rightarrow> int64_t" where
  "timer_remaining t now =
     (if valid t = 0 then - 1
      else if timespec_cmp now (deadline t) \<ge> 0 then 0
      else timespec_to_ms ((measure_diff (timer_store t now) Diff Deadline Diff) Diff))"

definition timer_elapsed :: "timer \<Rightarrow> timespec \<Rightarrow> int64_t" where
  "timer_elapsed t now =
     (if valid t = 0 then - 1
      else timespec_to_ms ((measure_diff (timer_store t now) Start Diff Diff) Diff))"

text \<open>A time value as a number of nanoseconds, and the normal form of a time value.\<close>

definition nanoseconds :: "timespec \<Rightarrow> int" where
  "nanoseconds t = sint (tv_sec t) * 1000000000 + sint (tv_nsec t)"

definition normalized :: "timespec \<Rightarrow> bool" where
  "normalized t \<longleftrightarrow> 0 \<le>s tv_sec t \<and> 0 \<le>s tv_nsec t \<and> tv_nsec t <s 1000000000"

section \<open>log.c: the logger\<close>

definition LOG_DISABLED :: "32 word" where
  "LOG_DISABLED = 0"

definition LOG_LEVEL_DEBUG :: "32 word" where
  "LOG_LEVEL_DEBUG = push_bit 0 1"

definition LOG_LEVEL_INFO :: "32 word" where
  "LOG_LEVEL_INFO = push_bit 1 1"

definition LOG_LEVEL_WARN :: "32 word" where
  "LOG_LEVEL_WARN = push_bit 2 1"

definition LOG_LEVEL_ERROR :: "32 word" where
  "LOG_LEVEL_ERROR = push_bit 3 1"

datatype log_sink_t = LOG_SINK_UNSPECIFIED | LOG_SINK_FILE | LOG_SINK_SYSLOG

text \<open>The static \<^verbatim>\<open>Config\<close>; a \<^verbatim>\<open>FILE *\<close> is a stream number, \<open>None\<close> the null pointer.\<close>

record config =
  ident :: string
  level_mask :: "32 word"
  "file" :: "nat option"
  sink :: log_sink_t

text \<open>
  What the logger does to the outside: text written to a stream (\<^verbatim>\<open>fprintf\<close>,
  \<^verbatim>\<open>vfprintf\<close>) and messages handed to \<^verbatim>\<open>syslog\<close> with their priority.
\<close>

datatype log_event = File_write nat string | Syslog_write int string

record log_state =
  Config :: config
  cfg_mtx :: bool
  written :: "log_event list"

definition lock :: "log_state \<Rightarrow> log_state" where
  "lock s = s\<lparr>cfg_mtx := True\<rparr>"

definition unlock :: "log_state \<Rightarrow> log_state" where
  "unlock s = s\<lparr>cfg_mtx := False\<rparr>"

subsection \<open>The conversions of printf that the repository uses\<close>

definition digit_char :: "nat \<Rightarrow> char" where
  "digit_char d = ''0123456789abcdef'' ! d"

fun dec_str :: "nat \<Rightarrow> string" where
  "dec_str n = (if n < 10 then [digit_char n] else dec_str (n div 10) @ [digit_char (n mod 10)])"

fun hex_str :: "nat \<Rightarrow> string" where
  "hex_str n = (if n < 16 then [digit_char n] else hex_str (n div 16) @ [digit_char (n mod 16)])"

declare dec_str.simps [simp del] hex_str.simps [simp del]

text \<open>\<^verbatim>\<open>%d\<close>, and \<^verbatim>\<open>%02d\<close>, which pads with zeros to two characters.\<close>

definition fmt_d :: "int \<Rightarrow> string" where
  "fmt_d i = (if i < 0 then CHR ''-'' # dec_str (nat (- i)) else dec_str (nat i))"

definition fmt_02d :: "int \<Rightarrow> string" where
  "fmt_02d i =
     (if i < 0 then CHR ''-'' # replicate (2 - Suc (length (dec_str (nat (- i))))) CHR ''0''
                      @ dec_str (nat (- i))
      else replicate (2 - length (dec_str (nat i))) CHR ''0'' @ dec_str (nat i))"

text \<open>
  \<^verbatim>\<open>%#lx\<close>: lower-case hexadecimal; the \<^verbatim>\<open>#\<close> flag puts \<^verbatim>\<open>0x\<close> in front of a nonzero
  value only (ISO C, 7.21.6.1), so zero prints as \<^verbatim>\<open>0\<close>.
\<close>

definition fmt_lx_alt :: "32 word \<Rightarrow> string" where
  "fmt_lx_alt w = (if w = 0 then ''0'' else ''0x'' @ hex_str (unat w))"

text \<open>
  \<^verbatim>\<open>%p\<close> as the C library of the target prints it (glibc and uClibc alike): \<^verbatim>\<open>0x\<close>
  and the hexadecimal digits without padding, as in the header's sample output
  \<^verbatim>\<open>[0x44afcc]\<close>, and \<^verbatim>\<open>(nil)\<close> for the null pointer.
\<close>

definition fmt_p :: "32 word \<Rightarrow> string" where
  "fmt_p w = (if w = 0 then ''(nil)'' else ''0x'' @ hex_str (unat w))"

text \<open>\<^verbatim>\<open>%-5s\<close>: the string, padded with blanks on the right to five characters.\<close>

definition fmt_s_left5 :: "string \<Rightarrow> string" where
  "fmt_s_left5 x = x @ replicate (5 - length x) CHR '' ''"

subsection \<open>Writing a message\<close>

definition level_labels :: "string list" where
  "level_labels = [''DEBUG'', ''INFO'', ''WARN'', ''ERROR'']"

definition get_level_label :: "32 word \<Rightarrow> string" where
  "get_level_label level =
     (if level = LOG_LEVEL_DEBUG then level_labels ! 0
      else if level = LOG_LEVEL_INFO then level_labels ! 1
      else if level = LOG_LEVEL_WARN then level_labels ! 2
      else if level = LOG_LEVEL_ERROR then level_labels ! 3
      else level_labels ! 0)"

text \<open>
  A message reaches \<^verbatim>\<open>log_log\<close> as a format with arguments; \<open>msg\<close> is the text they
  expand to. \<open>time_str\<close> is what \<^verbatim>\<open>get_time\<close> reads from the clock at this call.
  \<^verbatim>\<open>log_to_syslog\<close> cuts the prefix to 63 and the message to 255 characters
  (\<^verbatim>\<open>snprintf\<close> into \<^verbatim>\<open>char[64]\<close> and \<^verbatim>\<open>char[256]\<close>).
\<close>

definition syslog_priority :: "32 word \<Rightarrow> int" where
  "syslog_priority level =
     (if level = LOG_LEVEL_DEBUG then 7
      else if level = LOG_LEVEL_INFO then 6
      else if level = LOG_LEVEL_WARN then 4
      else if level = LOG_LEVEL_ERROR then 3
      else 7)"

definition log_to_syslog :: "32 word \<Rightarrow> string \<Rightarrow> int \<Rightarrow> string \<Rightarrow> log_state \<Rightarrow> log_state" where
  "log_to_syslog level src line msg s =
     (let prefix = take 63 (src @ '':'' @ fmt_d line);
          body = take 255 msg
      in s\<lparr>written := written s @ [Syslog_write (syslog_priority level) (prefix @ '': '' @ body)]\<rparr>)"

definition log_to_file ::
  "32 word \<Rightarrow> string \<Rightarrow> int \<Rightarrow> string \<Rightarrow> string \<Rightarrow> log_state \<Rightarrow> log_state" where
  "log_to_file level src line msg time_str s =
     (let f = the (file (Config s))
      in s\<lparr>written := written s @
            [File_write f (time_str @ '' ['' @ fmt_s_left5 (get_level_label level) @ ''] [''
                            @ ident (Config s) @ ''] '' @ src @ '':'' @ fmt_d line @ '': ''),
             File_write f msg,
             File_write f [CHR 0x0A]]\<rparr>)"

definition log_log ::
  "32 word \<Rightarrow> string \<Rightarrow> int \<Rightarrow> string \<Rightarrow> string \<Rightarrow> log_state \<Rightarrow> log_state" where
  "log_log level src line msg time_str s0 =
     (let s = lock s0
      in if sink (Config s) = LOG_SINK_UNSPECIFIED
            \<or> level_mask (Config s) = LOG_DISABLED
            \<or> (level_mask (Config s) AND level) = 0
         then unlock s
         else if sink (Config s) = LOG_SINK_FILE \<and> file (Config s) = None
         then unlock s
         else unlock (case sink (Config s) of
                        LOG_SINK_FILE \<Rightarrow> log_to_file level src line msg time_str s
                      | LOG_SINK_SYSLOG \<Rightarrow> log_to_syslog level src line msg s
                      | LOG_SINK_UNSPECIFIED \<Rightarrow> s))"

section \<open>backtrace.c: frame capture\<close>

text \<open>
  Process memory is read one 32-bit word at a time: \<open>mem a\<close> is the word at byte address
  \<open>a\<close>, or \<open>None\<close> where a read traps (an unmapped or misaligned address; the process
  is killed by the signal). Stepping an \<^verbatim>\<open>unsigned long *\<close> moves the address by four
  bytes, and address arithmetic wraps at 32 bits. The caller's buffer is a separate
  array of cells (\<open>buffer i\<close> is \<^verbatim>\<open>buffer[i]\<close>); \<open>None\<close> is the null pointer. The
  values that the inline assembly reads from \<^verbatim>\<open>$ra\<close> and \<^verbatim>\<open>$sp\<close> and the address of
  \<^verbatim>\<open>backtrace_mips32\<close> itself are parameters.
\<close>

type_synonym memory = "32 word \<Rightarrow> 32 word option"
type_synonym frame_buffer = "nat \<Rightarrow> 32 word"

text \<open>
  \<^verbatim>\<open>(short) (w & 0xffff)\<close>: the low half-word read as a signed 16-bit value (the
  conversion that GCC defines).
\<close>

definition short_of :: "32 word \<Rightarrow> int" where
  "short_of w = sint (ucast (w AND 0xffff) :: 16 word)"

text \<open>The macro \<^verbatim>\<open>ABS(s) ((s) < 0 ? -(s) : (s))\<close> on the promoted \<^verbatim>\<open>int\<close>.\<close>

definition ABS :: "int \<Rightarrow> int" where
  "ABS s = (if s < 0 then - s else s)"

text \<open>
  The forward scan over the function's own code,
  \<^verbatim>\<open>for (addr = backtrace_mips32; !stack_size; ++addr)\<close>. It has no bound: it ends only
  at a word \<^verbatim>\<open>0x27bdXXXX\<close> with a nonzero immediate, at the word \<^verbatim>\<open>0x03e00008\<close>, or
  with a trap. \<open>None\<close> is a scan that never ends.
\<close>

datatype forward_result = Frame_size size_t | Forward_trap

partial_function (option) forward_scan ::
  "memory \<Rightarrow> 32 word \<Rightarrow> size_t \<Rightarrow> forward_result option" where
  "forward_scan mem addr stack_size =
     (if stack_size \<noteq> 0 then Some (Frame_size stack_size)
      else (case mem addr of
              None \<Rightarrow> Some Forward_trap
            | Some w \<Rightarrow>
                if (w AND 0xffff0000) = 0x27bd0000
                then forward_scan mem (addr + 4) (word_of_int (ABS (short_of w)))
                else if w = 0x03e00008 then Some (Frame_size stack_size)
                else forward_scan mem (addr + 4) stack_size))"

text \<open>
  The backward scan from a return address,
  \<^verbatim>\<open>for (addr = ra; !ra_offset || !stack_size; --addr)\<close> with its \<^verbatim>\<open>switch\<close>. It ends
  when both values are nonzero, at a word \<^verbatim>\<open>0x3c1cXXXX\<close> (which returns from the
  function), or with a trap; it has no other bound.
\<close>

datatype scan_result = Sentinel | Found size_t size_t | Backward_trap

partial_function (option) backward_scan ::
  "memory \<Rightarrow> 32 word \<Rightarrow> size_t \<Rightarrow> size_t \<Rightarrow> scan_result option" where
  "backward_scan mem addr ra_offset stack_size =
     (if \<not> (ra_offset = 0 \<or> stack_size = 0) then Some (Found ra_offset stack_size)
      else (case mem addr of
              None \<Rightarrow> Some Backward_trap
            | Some w \<Rightarrow>
                if (w AND 0xffff0000) = 0x27bd0000
                then backward_scan mem (addr - 4) ra_offset (word_of_int (ABS (short_of w)))
                else if (w AND 0xffff0000) = 0xafbf0000
                then backward_scan mem (addr - 4) (word_of_int (short_of w)) stack_size
                else if (w AND 0xffff0000) = 0x3c1c0000 then Some Sentinel
                else backward_scan mem (addr - 4) ra_offset stack_size))"

text \<open>
  The outcome of a capture: the function returns a frame count, or a read traps
  (\<open>Trap\<close>), or one of its scans never ends (\<open>Hang\<close>); each with the buffer as it
  stands then.
\<close>

datatype capture =
  Return "frame_buffer option" int
  | Trap "frame_buffer option"
  | Hang "frame_buffer option"

text \<open>
  The loop \<^verbatim>\<open>for (depth = 0; depth < size && ra; ++depth)\<close>. \<^verbatim>\<open>depth + 1\<close> is computed
  only where \<^verbatim>\<open>depth < size\<close>, so the \<^verbatim>\<open>int\<close> counter cannot overflow and is an
  \<open>int\<close> here. The parameter \<^verbatim>\<open>size\<close> is written \<open>sz\<close>.
\<close>

function unwind ::
  "memory \<Rightarrow> int \<Rightarrow> frame_buffer \<Rightarrow> int \<Rightarrow> 32 word \<Rightarrow> 32 word \<Rightarrow> capture" where
  "unwind mem sz buffer depth ra sp =
     (if depth < sz \<and> ra \<noteq> 0
      then (case backward_scan mem ra 0 0 of
              None \<Rightarrow> Hang (Some (buffer(nat depth := ra)))
            | Some Backward_trap \<Rightarrow> Trap (Some (buffer(nat depth := ra)))
            | Some Sentinel \<Rightarrow> Return (Some (buffer(nat depth := ra))) (depth + 1)
            | Some (Found ra_offset stack_size) \<Rightarrow>
                (case mem (sp + ra_offset) of
                   None \<Rightarrow> Trap (Some (buffer(nat depth := ra)))
                 | Some next_ra \<Rightarrow>
                     unwind mem sz (buffer(nat depth := ra)) (depth + 1)
                       next_ra (sp + stack_size)))
      else Return (Some buffer) depth)"
  by pat_completeness auto
termination
  by (relation "measure (\<lambda>(mem, sz, buffer, depth, ra, sp). nat (sz - depth))") auto

definition backtrace_mips32 ::
  "memory \<Rightarrow> 32 word \<Rightarrow> 32 word \<Rightarrow> 32 word \<Rightarrow> frame_buffer option \<Rightarrow> int \<Rightarrow> capture" where
  "backtrace_mips32 mem entry ra sp buffer sz =
     (if sz \<le> 0 \<or> buffer = None then Return buffer 0
      else (case forward_scan mem entry 0 of
              None \<Rightarrow> Hang buffer
            | Some Forward_trap \<Rightarrow> Trap buffer
            | Some (Frame_size stack_size) \<Rightarrow>
                unwind mem sz (the buffer) 0 ra (sp + stack_size)))"

declare unwind.simps [simp del]

section \<open>backtrace.c: symbol formatting\<close>

definition WORD_WIDTH :: nat where
  "WORD_WIDTH = 8"

text \<open>\<^verbatim>\<open>Dl_info\<close>; a null string pointer is \<open>None\<close>. C strings hold no NUL character.\<close>

record dl_info =
  dli_fname :: "string option"
  dli_fbase :: "32 word"
  dli_sname :: "string option"
  dli_saddr :: "32 word"

text \<open>
  \<^verbatim>\<open>dladdr\<close> is a parameter: for an address it gives the status it returns and the
  \<^verbatim>\<open>Dl_info\<close> it fills in. \<^verbatim>\<open>malloc\<close> is a parameter that tells whether a request of
  that many bytes succeeds.
\<close>

type_synonym resolver = "32 word \<Rightarrow> int \<times> dl_info"
type_synonym allocator = "size_t \<Rightarrow> bool"

text \<open>The test \<^verbatim>\<open>status[cnt] && info[cnt].dli_fname && info[cnt].dli_fname[0] != '\0'\<close>.\<close>

definition have_info :: "int \<Rightarrow> dl_info \<Rightarrow> bool" where
  "have_info st di \<longleftrightarrow> st \<noteq> 0 \<and> dli_fname di \<noteq> None \<and> the (dli_fname di) \<noteq> []"

text \<open>\<^verbatim>\<open>strlen\<close> returns a \<^verbatim>\<open>size_t\<close>; \<^verbatim>\<open>p ?: ""\<close> is the empty string for a null \<open>p\<close>.\<close>

definition strlen :: "string \<Rightarrow> size_t" where
  "strlen x = of_nat (length x)"

definition or_empty :: "string option \<Rightarrow> string" where
  "or_empty p = (case p of None \<Rightarrow> [] | Some x \<Rightarrow> x)"

text \<open>The amount that the first loop adds to \<^verbatim>\<open>total\<close> for one address.\<close>

definition line_size :: "int \<Rightarrow> dl_info \<Rightarrow> size_t" where
  "line_size st di =
     (if have_info st di
      then strlen (or_empty (dli_fname di))
           + (case dli_sname di of
                Some sname \<Rightarrow> strlen sname + 3 + of_nat WORD_WIDTH + 3
              | None \<Rightarrow> 1)
           + of_nat WORD_WIDTH + 5
      else 5 + of_nat WORD_WIDTH)"

text \<open>
  The first loop, \<^verbatim>\<open>for (cnt = 0; cnt < size; ++cnt)\<close>. Cell \<open>cnt\<close> of the arrays
  \<^verbatim>\<open>status\<close> and \<^verbatim>\<open>info\<close> is written at step \<open>cnt\<close>, so the arrays are the lists of
  the values written so far (\<open>stats\<close> and \<open>info\<close>).
  \<^verbatim>\<open>total\<close>, here \<open>tot\<close>, is a \<^verbatim>\<open>size_t\<close> and wraps.
\<close>

function fill_info ::
  "resolver \<Rightarrow> 32 word list \<Rightarrow> int \<Rightarrow> int \<Rightarrow> int list \<Rightarrow> dl_info list \<Rightarrow> size_t
     \<Rightarrow> int list \<times> dl_info list \<times> size_t" where
  "fill_info dladdr array sz cnt stats info tot =
     (if cnt < sz
      then (let (st, di) = dladdr (array ! nat cnt)
            in fill_info dladdr array sz (cnt + 1) (stats @ [st]) (info @ [di])
                 (tot + line_size st di))
      else (stats, info, tot))"
  by pat_completeness auto
termination
  by (relation "measure (\<lambda>(dladdr, array, sz, cnt, stats, info, tot). nat (sz - cnt))") auto

declare fill_info.simps [simp del]

text \<open>
  The text that \<^verbatim>\<open>sprintf\<close> puts into \<^verbatim>\<open>buf\<close>: sign and offset from the symbol's
  address (the difference of the two pointers as \<^verbatim>\<open>unsigned long\<close>).
\<close>

definition offset_buf :: "32 word \<Rightarrow> dl_info \<Rightarrow> string" where
  "offset_buf a di =
     (if dli_saddr di \<le> a then ''+'' @ fmt_lx_alt (a - dli_saddr di)
      else ''-'' @ fmt_lx_alt (dli_saddr di - a))"

text \<open>The text that the second loop writes for one address (without the final NUL).\<close>

definition format_line :: "32 word \<Rightarrow> int \<Rightarrow> dl_info \<Rightarrow> string" where
  "format_line a st di =
     (if have_info st di
      then (let buf = offset_buf a di
            in or_empty (dli_fname di)
               @ (if dli_sname di \<noteq> None then ''('' else [])
               @ or_empty (dli_sname di)
               @ (if dli_sname di \<noteq> None then buf else [])
               @ (if dli_sname di \<noteq> None then '') '' else '' '')
               @ ''['' @ fmt_p a @ '']'')
      else ''['' @ fmt_p a @ '']'')"

text \<open>
  The second loop. \<open>result\<close> lists the strings that \<^verbatim>\<open>result[0]\<close>, \<^verbatim>\<open>result[1]\<close>, ...
  point to; \<open>lastp\<close> is the write cursor \<^verbatim>\<open>last\<close> as a byte offset from the start of
  the block, and \<open>room\<close> is the number of bytes of the block, that is, the number
  \<^verbatim>\<open>malloc\<close> was asked for. Step \<open>cnt\<close> stores \<^verbatim>\<open>last\<close> into cell \<open>cnt\<close> of the pointer
  table (four bytes at offset \<open>4 * cnt\<close>) and has \<^verbatim>\<open>sprintf\<close> write the line and its NUL
  at the cursor. A store that does not lie inside the block has no defined behaviour
  (the process is killed, or the heap is corrupted): the loop ends there with \<open>Inl cnt\<close>.
  Otherwise the cursor advances by the characters written and one for the NUL. Inside
  the block offsets stay below \<open>2 ^ 32\<close>, so the 32-bit pointer \<^verbatim>\<open>last\<close> is the block's
  address plus \<open>lastp\<close> exactly.
\<close>

function write_lines ::
  "32 word list \<Rightarrow> int \<Rightarrow> int list \<Rightarrow> dl_info list \<Rightarrow> nat \<Rightarrow> int \<Rightarrow> string list \<Rightarrow> nat
     \<Rightarrow> int + string list \<times> nat" where
  "write_lines array sz stats info room cnt result lastp =
     (if cnt < sz
      then (let line = format_line (array ! nat cnt) (stats ! nat cnt) (info ! nat cnt)
            in if 4 * nat cnt + 4 \<le> room \<and> lastp + (1 + length line) \<le> room
               then write_lines array sz stats info room (cnt + 1) (result @ [line])
                      (lastp + (1 + length line))
               else Inl cnt)
      else Inr (result, lastp))"
  by pat_completeness auto
termination
  by (relation "measure (\<lambda>(array, sz, stats, info, room, cnt, result, lastp). nat (sz - cnt))")
    auto

declare write_lines.simps [simp del]

text \<open>
  The block that \<^verbatim>\<open>backtrace_symbols\<close> returns: the strings of the pointer table, the
  number of bytes asked from \<^verbatim>\<open>malloc\<close>, and the final write cursor. A pointer takes
  four bytes.
\<close>

record symbols =
  strings :: "string list"
  requested :: size_t
  cursor :: nat

text \<open>
  A call of \<^verbatim>\<open>backtrace_symbols\<close> returns a pointer (\<open>None\<close> is the null pointer, returned
  when \<^verbatim>\<open>malloc\<close> fails), or its write pass leaves the block at line \<open>cnt\<close>
  (\<open>Overrun cnt\<close>), or the \<^verbatim>\<open>assert\<close> after the write pass aborts the process.
\<close>

datatype symbols_result =
  Returned "symbols option"
  | Overrun int
  | Assert_failed

text \<open>
  \<^verbatim>\<open>size * sizeof (char *) + total\<close> is computed in \<^verbatim>\<open>size_t\<close> and wraps. The bound under
  \<^verbatim>\<open>assert\<close>, \<^verbatim>\<open>(char *) result + size * sizeof (char *) + total\<close>, is the block's address
  plus the same 32-bit sum, that is, the end of the block.
\<close>

definition backtrace_symbols ::
  "resolver \<Rightarrow> allocator \<Rightarrow> 32 word list \<Rightarrow> int \<Rightarrow> symbols_result" where
  "backtrace_symbols dladdr malloc array sz =
     (let (stats, info, tot) = fill_info dladdr array sz 0 [] [] 0;
          request = of_int sz * 4 + tot
      in if malloc request
         then (case write_lines array sz stats info (unat request) 0 [] (nat sz * 4) of
                 Inl cnt \<Rightarrow> Overrun cnt
               | Inr (result, lastp) \<Rightarrow>
                   if lastp \<le> unat request
                   then Returned (Some \<lparr>strings = result, requested = request, cursor = lastp\<rparr>)
                   else Assert_failed)
         else Returned None)"

section \<open>backtrace.c: the reporter\<close>

text \<open>
  \<^verbatim>\<open>LOG(level, ...)\<close> is \<^verbatim>\<open>log_log(level, __FILE__, __LINE__, ...)\<close>. The three uses sit
  on lines 26, 31 and 33 of \<^verbatim>\<open>backtrace.c\<close>. \<open>tm k\<close> is the clock reading of the
  \<open>k\<close>-th message of a report.
\<close>

definition LOG :: "32 word \<Rightarrow> int \<Rightarrow> string \<Rightarrow> string \<Rightarrow> log_state \<Rightarrow> log_state" where
  "LOG log_level line msg time_str s = log_log log_level ''backtrace.c'' line msg time_str s"

definition header_text :: "int \<Rightarrow> string" where
  "header_text nptrs = ''Stack trace: '' @ fmt_d nptrs @ '' frames (most recent call first)''"

definition frame_text :: "int \<Rightarrow> string \<Rightarrow> string" where
  "frame_text i x = [CHR 0x09, CHR ''#''] @ fmt_02d i @ '' '' @ x"

function report_frames ::
  "32 word \<Rightarrow> (nat \<Rightarrow> string) \<Rightarrow> frame_buffer \<Rightarrow> string list option \<Rightarrow> int \<Rightarrow> int
     \<Rightarrow> log_state \<Rightarrow> log_state" where
  "report_frames log_level tm buffer strs nptrs i s =
     (if i < nptrs
      then report_frames log_level tm buffer strs nptrs (i + 1)
             (case strs of
                None \<Rightarrow> LOG log_level 31 (frame_text i (fmt_p (buffer (nat i)))) (tm (nat i + 1)) s
              | Some lines \<Rightarrow> LOG log_level 33 (frame_text i (lines ! nat i)) (tm (nat i + 1)) s)
      else s)"
  by pat_completeness auto
termination
  by (relation "measure (\<lambda>(log_level, tm, buffer, strs, nptrs, i, s). nat (nptrs - i))") auto

declare report_frames.simps [simp del]

text \<open>
  \<^verbatim>\<open>print_stack_trace\<close>. The local \<^verbatim>\<open>buffer[64]\<close> starts with arbitrary contents
  \<open>buffer0\<close>. The result is \<open>None\<close> when the function does not return: the capture
  traps or never ends, or the formatter leaves its block or aborts.
\<close>

definition print_stack_trace ::
  "memory \<Rightarrow> 32 word \<Rightarrow> 32 word \<Rightarrow> 32 word \<Rightarrow> frame_buffer \<Rightarrow> resolver \<Rightarrow> allocator
     \<Rightarrow> (nat \<Rightarrow> string) \<Rightarrow> 32 word \<Rightarrow> log_state \<Rightarrow> log_state option" where
  "print_stack_trace mem entry ra sp buffer0 dladdr malloc tm log_level s =
     (case backtrace_mips32 mem entry ra sp (Some buffer0) 64 of
        Hang b \<Rightarrow> None
      | Trap b \<Rightarrow> None
      | Return b nptrs \<Rightarrow>
          (let buffer = the b;
               s1 = LOG log_level 26 (header_text nptrs) (tm 0) s
           in (case backtrace_symbols dladdr malloc (map buffer [0..<64]) nptrs of
                 Overrun cnt \<Rightarrow> None
               | Assert_failed \<Rightarrow> None
               | Returned strs \<Rightarrow>
                   Some (report_frames log_level tm buffer (map_option strings strs) nptrs 0 s1))))"

section \<open>Notions used in the statements\<close>

text \<open>
  \<open>untouched_from k b b'\<close>: the buffer \<open>b'\<close> is the buffer \<open>b\<close> in every cell from index
  \<open>k\<close> on (and is null exactly when \<open>b\<close> is).
\<close>

definition untouched_from :: "nat \<Rightarrow> frame_buffer option \<Rightarrow> frame_buffer option \<Rightarrow> bool" where
  "untouched_from k b b' =
     (case b of
        None \<Rightarrow> b' = None
      | Some f \<Rightarrow> (case b' of None \<Rightarrow> False | Some g \<Rightarrow> \<forall>i. k \<le> i \<longrightarrow> g i = f i))"

text \<open>
  Bounded readings of the two scans. \<open>forward_within K mem a\<close>: the forward scan started
  at \<open>a\<close> reads at most \<open>K\<close> words, every one of them readable, and the last of them ends
  it (a stack adjustment \<^verbatim>\<open>0x27bdXXXX\<close> with a nonzero immediate, or the return
  \<^verbatim>\<open>0x03e00008\<close>). \<open>backward_within K mem a ro ss\<close>: the backward scan started at \<open>a\<close>
  with the values \<open>ro\<close> and \<open>ss\<close> of \<^verbatim>\<open>ra_offset\<close> and \<^verbatim>\<open>stack_size\<close> reads at most \<open>K\<close>
  words, every one of them readable, and ends with both values nonzero or at the
  sentinel \<^verbatim>\<open>0x3c1cXXXX\<close>.
\<close>

fun forward_within :: "nat \<Rightarrow> memory \<Rightarrow> 32 word \<Rightarrow> bool" where
  "forward_within 0 mem a = False"
| "forward_within (Suc K) mem a =
     (case mem a of
        None \<Rightarrow> False
      | Some w \<Rightarrow>
          if (w AND 0xffff0000) = 0x27bd0000
          then (word_of_int (ABS (short_of w)) :: size_t) \<noteq> 0 \<or> forward_within K mem (a + 4)
          else w = 0x03e00008 \<or> forward_within K mem (a + 4))"

fun backward_within :: "nat \<Rightarrow> memory \<Rightarrow> 32 word \<Rightarrow> size_t \<Rightarrow> size_t \<Rightarrow> bool" where
  "backward_within 0 mem a ro ss = (ro \<noteq> 0 \<and> ss \<noteq> 0)"
| "backward_within (Suc K) mem a ro ss =
     ((ro \<noteq> 0 \<and> ss \<noteq> 0) \<or>
      (case mem a of
         None \<Rightarrow> False
       | Some w \<Rightarrow>
           if (w AND 0xffff0000) = 0x27bd0000
           then backward_within K mem (a - 4) ro (word_of_int (ABS (short_of w)))
           else if (w AND 0xffff0000) = 0xafbf0000
           then backward_within K mem (a - 4) (word_of_int (short_of w)) ss
           else (w AND 0xffff0000) = 0x3c1c0000 \<or> backward_within K mem (a - 4) ro ss))"

text \<open>
  \<open>sentinel_below K mem a\<close>: one of the \<open>K\<close> words from \<open>a\<close> downwards is a sentinel, and it
  and the words above it are readable (the function that holds \<open>a\<close> starts with
  \<^verbatim>\<open>lui gp\<close> at most \<open>K\<close> words before \<open>a\<close>, in readable code).
\<close>

fun sentinel_below :: "nat \<Rightarrow> memory \<Rightarrow> 32 word \<Rightarrow> bool" where
  "sentinel_below 0 mem a = False"
| "sentinel_below (Suc K) mem a =
     (case mem a of
        None \<Rightarrow> False
      | Some w \<Rightarrow> (w AND 0xffff0000) = 0x3c1c0000 \<or> sentinel_below K mem (a - 4))"

text \<open>
  The frames that the loop visits. \<open>frame_at mem ra sp i\<close> is the return address and the
  stack pointer with which the loop, started with \<open>ra\<close> and \<open>sp\<close>, enters its step \<open>i\<close>
  after \<open>i\<close> complete steps: each of these had a return address other than null, a
  backward scan that found both values, and a readable slot for the saved return
  address. \<open>frame\<close> starts from the registers, with the stack pointer moved by the frame
  size that the forward scan finds.
\<close>

fun frame_at :: "memory \<Rightarrow> 32 word \<Rightarrow> 32 word \<Rightarrow> nat \<Rightarrow> (32 word \<times> 32 word) option" where
  "frame_at mem ra sp 0 = Some (ra, sp)"
| "frame_at mem ra sp (Suc i) =
     (if ra = 0 then None
      else (case backward_scan mem ra 0 0 of
              Some (Found ra_offset stack_size) \<Rightarrow>
                (case mem (sp + ra_offset) of
                   None \<Rightarrow> None
                 | Some next_ra \<Rightarrow> frame_at mem next_ra (sp + stack_size) i)
            | _ \<Rightarrow> None))"

definition frame ::
  "memory \<Rightarrow> 32 word \<Rightarrow> 32 word \<Rightarrow> 32 word \<Rightarrow> nat \<Rightarrow> (32 word \<times> 32 word) option" where
  "frame mem entry ra sp i =
     (case forward_scan mem entry 0 of
        Some (Frame_size stack_size) \<Rightarrow> frame_at mem ra (sp + stack_size) i
      | _ \<Rightarrow> None)"

text \<open>
  \<open>walk_within K mem n ra sp\<close>: in each of the next \<open>n\<close> steps of the loop, started with
  \<open>ra\<close> and \<open>sp\<close>, the return address is null (and the loop is over) or the backward
  scan ends within \<open>K\<close> readable words and, where it has found both values, the slot of
  the saved return address is readable. \<open>scans_end K\<close> says this of a whole capture: the
  forward scan ends within \<open>K\<close> readable words, and the walk over up to \<open>sz\<close> frames is
  as described.
\<close>

fun walk_within :: "nat \<Rightarrow> memory \<Rightarrow> nat \<Rightarrow> 32 word \<Rightarrow> 32 word \<Rightarrow> bool" where
  "walk_within K mem 0 ra sp = True"
| "walk_within K mem (Suc n) ra sp =
     (ra = 0 \<or>
      (backward_within K mem ra 0 0 \<and>
       (case backward_scan mem ra 0 0 of
          Some (Found ra_offset stack_size) \<Rightarrow>
            (case mem (sp + ra_offset) of
               None \<Rightarrow> False
             | Some next_ra \<Rightarrow> walk_within K mem n next_ra (sp + stack_size))
        | _ \<Rightarrow> True)))"

definition scans_end :: "nat \<Rightarrow> memory \<Rightarrow> 32 word \<Rightarrow> 32 word \<Rightarrow> 32 word \<Rightarrow> int \<Rightarrow> bool" where
  "scans_end K mem entry ra sp sz =
     (forward_within K mem entry \<and>
      (case forward_scan mem entry 0 of
         Some (Frame_size stack_size) \<Rightarrow> walk_within K mem (nat sz) ra (sp + stack_size)
       | _ \<Rightarrow> False))"

text \<open>A buffer of zeros, for the examples.\<close>

definition blank_buffer :: frame_buffer where
  "blank_buffer i = 0"

text \<open>
  A small process image: a page of code at \<^verbatim>\<open>0x400000\<close> and a page of stack at
  \<^verbatim>\<open>0x7fff0000\<close>, nothing else readable. \<^verbatim>\<open>backtrace_mips32\<close> sits at \<^verbatim>\<open>0x400100\<close>
  and opens with \<^verbatim>\<open>addiu sp,sp,-8\<close>. Its caller starts at \<^verbatim>\<open>0x400000\<close> with
  \<^verbatim>\<open>lui gp\<close>, \<^verbatim>\<open>addiu sp,sp,-32\<close>, \<^verbatim>\<open>sw ra,28(sp)\<close> and a \<^verbatim>\<open>jal\<close> that returns to
  \<^verbatim>\<open>0x400010\<close>. The caller's own return address, at \<^verbatim>\<open>0x7fff0024\<close> on the stack,
  is \<^verbatim>\<open>0x400210\<close>, two words after a \<^verbatim>\<open>lui gp\<close> at \<^verbatim>\<open>0x400208\<close>. All other
  readable words are zero (\<^verbatim>\<open>nop\<close>).
\<close>

definition demo_mem :: memory where
  "demo_mem a =
     (if a = 0x400100 then Some 0x27bdfff8
      else if a = 0x400000 then Some 0x3c1c0fc0
      else if a = 0x400004 then Some 0x27bdffe0
      else if a = 0x400008 then Some 0xafbf001c
      else if a = 0x40000c then Some 0x0c100040
      else if a = 0x7fff0024 then Some 0x400210
      else if a = 0x400208 then Some 0x3c1c0fc0
      else if (0x400000 \<le> a \<and> a < 0x401000) \<or> 0x7fff0000 \<le> a then Some 0
      else None)"

text \<open>
  The same two pages where the caller shows none of the three patterns (its code
  before the return address \<^verbatim>\<open>0x400010\<close> is \<^verbatim>\<open>nop\<close> down to the start of the page),
  and a memory that is readable everywhere and \<^verbatim>\<open>nop\<close> outside the first word of
  \<^verbatim>\<open>backtrace_mips32\<close>.
\<close>

definition bare_mem :: memory where
  "bare_mem a =
     (if a = 0x400100 then Some 0x27bdfff8
      else if (0x400000 \<le> a \<and> a < 0x401000) \<or> 0x7fff0000 \<le> a then Some 0
      else None)"

definition nop_mem :: memory where
  "nop_mem a = Some (if a = 0x400100 then 0x27bdfff8 else 0)"

text \<open>Line \<open>i\<close> and the size reserved for it, from the address array and the resolver.\<close>

definition line_at :: "resolver \<Rightarrow> 32 word list \<Rightarrow> nat \<Rightarrow> string" where
  "line_at dladdr array i =
     format_line (array ! i) (fst (dladdr (array ! i))) (snd (dladdr (array ! i)))"

definition size_at :: "resolver \<Rightarrow> 32 word list \<Rightarrow> nat \<Rightarrow> size_t" where
  "size_at dladdr array i = line_size (fst (dladdr (array ! i))) (snd (dladdr (array ! i)))"

text \<open>
  A valid timer set at second 100 of the monotonic clock for 60 seconds, and a clock
  reading 2147484 seconds (a little under 25 days) later.
\<close>

definition long_timer :: timer where
  "long_timer = \<lparr>status = 3, start = \<lparr>tv_sec = 100, tv_nsec = 0\<rparr>,
                  deadline = \<lparr>tv_sec = 160, tv_nsec = 0\<rparr>\<rparr>"

definition late_now :: timespec where
  "late_now = \<lparr>tv_sec = 2147584, tv_nsec = 0\<rparr>"

text \<open>A valid timer set at second 100 for 2147484000 milliseconds, read at once.\<close>

definition far_timer :: timer where
  "far_timer = \<lparr>status = 3, start = \<lparr>tv_sec = 100, tv_nsec = 0\<rparr>,
                 deadline = \<lparr>tv_sec = 2147584, tv_nsec = 0\<rparr>\<rparr>"

definition early_now :: timespec where
  "early_now = \<lparr>tv_sec = 100, tv_nsec = 0\<rparr>"

text \<open>
  The value of \<^verbatim>\<open>total\<close> after the first loop, the argument of \<^verbatim>\<open>malloc\<close>, and the
  pre-sizing formula for one address over the natural numbers (that is, without the
  wrap-around of \<^verbatim>\<open>size_t\<close>).
\<close>

definition total_size :: "resolver \<Rightarrow> 32 word list \<Rightarrow> int \<Rightarrow> size_t" where
  "total_size dladdr array sz = snd (snd (fill_info dladdr array sz 0 [] [] 0))"

definition request_size :: "resolver \<Rightarrow> 32 word list \<Rightarrow> int \<Rightarrow> size_t" where
  "request_size dladdr array sz = of_int sz * 4 + total_size dladdr array sz"

definition line_need :: "int \<Rightarrow> dl_info \<Rightarrow> nat" where
  "line_need st di =
     (if have_info st di
      then length (or_empty (dli_fname di))
           + (case dli_sname di of
                Some sname \<Rightarrow> length sname + 3 + WORD_WIDTH + 3
              | None \<Rightarrow> 1)
           + WORD_WIDTH + 5
      else 5 + WORD_WIDTH)"

definition need_at :: "resolver \<Rightarrow> 32 word list \<Rightarrow> nat \<Rightarrow> nat" where
  "need_at dladdr array i = line_need (fst (dladdr (array ! i))) (snd (dladdr (array ! i)))"

text \<open>
  The bytes that the write pass uses when no store leaves the block: the pointer table
  and every line with its NUL. The lines of a returned block.
\<close>

definition used_size :: "resolver \<Rightarrow> 32 word list \<Rightarrow> int \<Rightarrow> nat" where
  "used_size dladdr array sz =
     nat sz * 4 + sum_list (map (\<lambda>i. 1 + length (line_at dladdr array i)) [0..<nat sz])"

definition lines_of :: "symbols_result \<Rightarrow> string list option" where
  "lines_of r = (case r of Returned (Some blk) \<Rightarrow> Some (strings blk) | _ \<Rightarrow> None)"

text \<open>Allocators that always and never succeed.\<close>

definition always_malloc :: allocator where
  "always_malloc n = True"

definition never_malloc :: allocator where
  "never_malloc n = False"

text \<open>
  A resolver in the manner of the header's sample output: \<^verbatim>\<open>main\<close> of
  \<^verbatim>\<open>./driver_manager\<close> at \<^verbatim>\<open>0x449ba4\<close>, an address in \<^verbatim>\<open>/lib/libc.so.0\<close> without a
  symbol, and nothing for any other address.
\<close>

definition main_info :: dl_info where
  "main_info = \<lparr>dli_fname = Some ''./driver_manager'', dli_fbase = 0x400000,
                 dli_sname = Some ''main'', dli_saddr = 0x449ba4\<rparr>"

definition libc_info :: dl_info where
  "libc_info = \<lparr>dli_fname = Some ''/lib/libc.so.0'', dli_fbase = 0x2ac70000,
                 dli_sname = None, dli_saddr = 0\<rparr>"

definition null_info :: dl_info where
  "null_info = \<lparr>dli_fname = None, dli_fbase = 0, dli_sname = None, dli_saddr = 0\<rparr>"

definition sample_dladdr :: resolver where
  "sample_dladdr a =
     (if a = 0x44a3ec \<or> a = 0x449ba4 \<or> a = 0x449b00 then (1, main_info)
      else if a = 0x2ac7b4d4 then (1, libc_info)
      else (0, null_info))"

definition sample_array :: "32 word list" where
  "sample_array = [0x44a3ec, 0x449ba4, 0x449b00, 0x2ac7b4d4, 0x10]"

definition sample_lines :: "string list" where
  "sample_lines = [''./driver_manager(main+0x848) [0x44a3ec]'',
                   ''./driver_manager(main+0) [0x449ba4]'',
                   ''./driver_manager(main-0xa4) [0x449b00]'',
                   ''/lib/libc.so.0 [0x2ac7b4d4]'',
                   ''[0x10]'']"

text \<open>
  A deep recursion: 65536 return addresses inside one function whose (mangled) name
  is 65501 characters long.
\<close>

definition long_name :: string where
  "long_name = replicate 65501 CHR ''f''"

definition deep_info :: dl_info where
  "deep_info = \<lparr>dli_fname = Some ''/bin/app'', dli_fbase = 0x400000,
                 dli_sname = Some long_name, dli_saddr = 0x400000\<rparr>"

definition deep_dladdr :: resolver where
  "deep_dladdr a = (1, deep_info)"

definition deep_array :: "32 word list" where
  "deep_array = replicate 65536 0x400010"

text \<open>
  The report that consists of the header and one line per frame with the bare address:
  the messages handed to \<^verbatim>\<open>LOG\<close>, in order.
\<close>

definition fallback_report ::
  "(nat \<Rightarrow> string) \<Rightarrow> 32 word \<Rightarrow> frame_buffer \<Rightarrow> int \<Rightarrow> log_state \<Rightarrow> log_state" where
  "fallback_report tm log_level buffer nptrs s =
     foldl (\<lambda>s' i. LOG log_level 31 (frame_text (int i) (fmt_p (buffer i))) (tm (i + 1)) s')
       (LOG log_level 26 (header_text nptrs) (tm 0) s) [0..<nat nptrs]"

text \<open>
  The logger as it starts (the initializer of \<^verbatim>\<open>Config\<close>), and a logger set to write
  warnings and errors of the program \<^verbatim>\<open>app\<close> to stream 2.
\<close>

definition initial_log :: log_state where
  "initial_log = \<lparr>Config = \<lparr>ident = ''?'', level_mask = LOG_DISABLED, file = None,
                              sink = LOG_SINK_UNSPECIFIED\<rparr>,
                  cfg_mtx = False, written = []\<rparr>"

definition file_log :: log_state where
  "file_log = \<lparr>Config = \<lparr>ident = ''app'', level_mask = LOG_LEVEL_WARN OR LOG_LEVEL_ERROR,
                           file = Some 2, sink = LOG_SINK_FILE\<rparr>,
               cfg_mtx = False, written = []\<rparr>"

definition fixed_clock :: "nat \<Rightarrow> string" where
  "fixed_clock k = ''2007-01-01 00:00:00.000''"

text \<open>The buffer after the capture of the small process image.\<close>

definition demo_frames :: frame_buffer where
  "demo_frames = blank_buffer(0 := 0x400010, 1 := 0x400210)"


section \<open>Frame capture: bounds, empty result, termination\<close>

lemma unwind_bounds:
  "0 \<le> depth \<Longrightarrow>
   (case unwind mem sz buffer depth ra sp of
      Return b n \<Rightarrow> depth \<le> n \<and> n \<le> max sz depth \<and> untouched_from (nat n) (Some buffer) b
    | Trap b \<Rightarrow> depth < sz \<and> untouched_from (nat sz) (Some buffer) b
    | Hang b \<Rightarrow> depth < sz \<and> untouched_from (nat sz) (Some buffer) b)"
proof (induction mem sz buffer depth ra sp rule: unwind.induct)
  case (1 mem sz buffer depth ra sp)
  show ?case
  proof (cases "depth < sz \<and> ra \<noteq> 0")
    case False
    have "unwind mem sz buffer depth ra sp = Return (Some buffer) depth"
      by (subst unwind.simps) (simp only: False if_False)
    then show ?thesis
      by (simp add: untouched_from_def)
  next
    case True
    show ?thesis
    proof (cases "backward_scan mem ra 0 0")
      case None
      with True "1.prems" show ?thesis
        by (subst unwind.simps) (auto simp add: untouched_from_def)
    next
      case (Some r)
      show ?thesis
      proof (cases r)
        case Sentinel
        with True Some "1.prems" show ?thesis
          by (subst unwind.simps) (auto simp add: untouched_from_def)
      next
        case Backward_trap
        with True Some "1.prems" show ?thesis
          by (subst unwind.simps) (auto simp add: untouched_from_def)
      next
        case (Found ro ss)
        show ?thesis
        proof (cases "mem (sp + ro)")
          case None
          with True Some Found "1.prems" show ?thesis
            by (subst unwind.simps) (auto simp add: untouched_from_def)
        next
          case (Some next_ra)
          have ih: "case unwind mem sz (buffer(nat depth := ra)) (depth + 1) next_ra (sp + ss) of
              Return b n \<Rightarrow> depth + 1 \<le> n \<and> n \<le> max sz (depth + 1)
                 \<and> untouched_from (nat n) (Some (buffer(nat depth := ra))) b
            | Trap b \<Rightarrow> depth + 1 < sz \<and> untouched_from (nat sz) (Some (buffer(nat depth := ra))) b
            | Hang b \<Rightarrow> depth + 1 < sz \<and> untouched_from (nat sz) (Some (buffer(nat depth := ra))) b"
            by (rule "1.IH" [OF True \<open>backward_scan mem ra 0 0 = Some r\<close> Found Some])
              (use "1.prems" in simp)
          have eq: "unwind mem sz buffer depth ra sp =
              unwind mem sz (buffer(nat depth := ra)) (depth + 1) next_ra (sp + ss)"
            using True \<open>backward_scan mem ra 0 0 = Some r\<close> Found Some
            by (subst unwind.simps) simp
          show ?thesis
            unfolding eq using ih True "1.prems"
            by (auto simp add: untouched_from_def split: capture.splits option.splits)
        qed
      qed
    qed
  qed
qed

text \<open>The capture of the small process image: two frames, ended by the sentinel.\<close>

lemma demo_forward: "forward_scan demo_mem 0x400100 0 = Some (Frame_size 8)"
  apply (subst forward_scan.simps)
  apply (simp add: demo_mem_def short_of_def ABS_def)
  apply (subst forward_scan.simps)
  apply simp
  done

lemma demo_backward_1: "backward_scan demo_mem 0x400010 0 0 = Some (Found 28 32)"
  by (simp add: backward_scan.simps demo_mem_def short_of_def ABS_def)

lemma demo_backward_2: "backward_scan demo_mem 0x400210 0 0 = Some Sentinel"
  by (simp add: backward_scan.simps demo_mem_def short_of_def ABS_def)

lemma demo_capture:
  "backtrace_mips32 demo_mem 0x400100 0x400010 0x7fff0000 (Some blank_buffer) 64
     = Return (Some (blank_buffer(0 := 0x400010, 1 := 0x400210))) 2"
  apply (simp add: backtrace_mips32_def demo_forward)
  apply (subst unwind.simps)
  apply (simp add: demo_backward_1)
  apply (subst unwind.simps)
  apply (simp add: demo_backward_2 demo_mem_def)
  done

lemma demo_capture_2:
  "backtrace_mips32 demo_mem 0x400100 0x400010 0x7fff0000 (Some blank_buffer) 2
     = Return (Some (blank_buffer(0 := 0x400010, 1 := 0x400210))) 2"
  apply (simp add: backtrace_mips32_def demo_forward)
  apply (subst unwind.simps)
  apply (simp add: demo_backward_1)
  apply (subst unwind.simps)
  apply (simp add: demo_backward_2 demo_mem_def)
  done

lemma capture_bounds:
  "(case backtrace_mips32 mem entry ra sp buffer sz of
      Return b n \<Rightarrow> 0 \<le> n \<and> n \<le> max sz 0 \<and> untouched_from (nat n) buffer b
    | Trap b \<Rightarrow> untouched_from (nat (max sz 0)) buffer b
    | Hang b \<Rightarrow> untouched_from (nat (max sz 0)) buffer b)"
proof (cases "sz \<le> 0 \<or> buffer = None")
  case True
  then show ?thesis
    by (auto simp add: backtrace_mips32_def untouched_from_def split: option.splits)
next
  case False
  then obtain f where f: "buffer = Some f" and sz: "0 < sz" by auto
  show ?thesis
  proof (cases "forward_scan mem entry 0")
    case None
    with False f show ?thesis
      by (simp add: backtrace_mips32_def untouched_from_def)
  next
    case (Some r)
    show ?thesis
    proof (cases r)
      case Forward_trap
      with False f Some show ?thesis
        by (simp add: backtrace_mips32_def untouched_from_def)
    next
      case (Frame_size s)
      have "case unwind mem sz f 0 ra (sp + s) of
        Return b n \<Rightarrow> 0 \<le> n \<and> n \<le> max sz 0 \<and> untouched_from (nat n) (Some f) b
      | Trap b \<Rightarrow> 0 < sz \<and> untouched_from (nat sz) (Some f) b
      | Hang b \<Rightarrow> 0 < sz \<and> untouched_from (nat sz) (Some f) b"
        using unwind_bounds [where depth = 0 and mem = mem and sz = sz and buffer = f and ra = ra
            and sp = "sp + s"] by simp
      with False f Some Frame_size sz show ?thesis
        by (auto simp add: backtrace_mips32_def max_def split: capture.splits)
    qed
  qed
qed

text \<open>
  C2. For every buffer and every \<open>sz\<close>, a capture that returns gives a count \<open>n\<close> with
  \<open>0 \<le> n \<le> max sz 0\<close> and has stored into the cells below \<open>n\<close> only; this covers the
  early return of \<open>depth + 1\<close> at the sentinel. A capture that traps or never ends has
  stored into cells below \<open>max sz 0\<close> only.
\<close>

theorem backtrace_mips32_bounds:
  "(case backtrace_mips32 mem entry ra sp buffer sz of
      Return b n \<Rightarrow> 0 \<le> n \<and> n \<le> max sz 0 \<and> untouched_from (nat n) buffer b
    | Trap b \<Rightarrow> untouched_from (nat (max sz 0)) buffer b
    | Hang b \<Rightarrow> untouched_from (nat (max sz 0)) buffer b)"
  by (rule capture_bounds)

theorem backtrace_mips32_bounds_witness:
  "backtrace_mips32 demo_mem 0x400100 0x400010 0x7fff0000 (Some blank_buffer) 2
     = Return (Some (blank_buffer(0 := 0x400010, 1 := 0x400210))) 2
   \<and> (2 :: int) \<le> max 2 0
   \<and> untouched_from 2 (Some blank_buffer) (Some (blank_buffer(0 := 0x400010, 1 := 0x400210)))"
  using backtrace_mips32_bounds [where mem = demo_mem and entry = "0x400100" and ra = "0x400010"
      and sp = "0x7fff0000" and buffer = "Some blank_buffer" and sz = 2]
  by (simp add: demo_capture_2)

text \<open>
  C7. With \<open>sz \<le> 0\<close> or a null buffer the function returns 0 at once and hands the
  buffer back as it was given; no scan is started and nothing is stored.
\<close>

theorem backtrace_mips32_empty:
  "sz \<le> 0 \<or> buffer = None \<Longrightarrow> backtrace_mips32 mem entry ra sp buffer sz = Return buffer 0"
  by (simp add: backtrace_mips32_def)

theorem backtrace_mips32_empty_witness:
  "backtrace_mips32 bare_mem 0x400100 0x400010 0x7fff0000 (Some blank_buffer) (- 3)
     = Return (Some blank_buffer) 0
   \<and> backtrace_mips32 bare_mem 0x400100 0x400010 0x7fff0000 None 64 = Return None 0"
  using backtrace_mips32_empty [where sz = "- 3" and buffer = "Some blank_buffer"
      and mem = bare_mem and entry = "0x400100" and ra = "0x400010" and sp = "0x7fff0000"]
    backtrace_mips32_empty [where sz = 64 and buffer = None
      and mem = bare_mem and entry = "0x400100" and ra = "0x400010" and sp = "0x7fff0000"]
  by simp

subsection \<open>Termination\<close>

lemma forward_scan_nonzero: "s \<noteq> 0 \<Longrightarrow> forward_scan mem a s = Some (Frame_size s)"
  by (subst forward_scan.simps) simp

lemma backward_scan_found:
  "ro \<noteq> 0 \<Longrightarrow> ss \<noteq> 0 \<Longrightarrow> backward_scan mem a ro ss = Some (Found ro ss)"
  by (subst backward_scan.simps) simp

text \<open>
  A scan returns a value other than a trap exactly when some bound on the number of
  readable words it reads is enough.
\<close>

lemma forward_within_scan:
  "forward_within K mem a \<Longrightarrow> \<exists>s. forward_scan mem a 0 = Some (Frame_size s)"
proof (induction K arbitrary: a)
  case 0
  then show ?case by simp
next
  case (Suc K)
  from Suc.prems obtain w where w: "mem a = Some w"
    by (cases "mem a") simp_all
  show ?case
  proof (cases "(w AND 0xffff0000) = 0x27bd0000")
    case adj: True
    show ?thesis
    proof (cases "(word_of_int (ABS (short_of w)) :: size_t) = 0")
      case True
      with Suc.prems w adj have "forward_within K mem (a + 4)" by simp
      then obtain s where "forward_scan mem (a + 4) 0 = Some (Frame_size s)"
        using Suc.IH by blast
      with w adj True show ?thesis by (subst forward_scan.simps) simp
    next
      case False
      with w adj show ?thesis
        by (subst forward_scan.simps) (simp add: forward_scan_nonzero)
    qed
  next
    case noadj: False
    show ?thesis
    proof (cases "w = 0x03e00008")
      case True
      with w noadj show ?thesis by (subst forward_scan.simps) simp
    next
      case False
      with Suc.prems w noadj have "forward_within K mem (a + 4)" by simp
      then obtain s where "forward_scan mem (a + 4) 0 = Some (Frame_size s)"
        using Suc.IH by blast
      with w noadj False show ?thesis by (subst forward_scan.simps) simp
    qed
  qed
qed

lemma forward_scan_within:
  assumes "forward_scan mem a 0 = Some (Frame_size s)"
  shows "\<exists>K. forward_within K mem a"
proof -
  have "y \<noteq> Forward_trap \<longrightarrow> st \<noteq> 0 \<or> (\<exists>K. forward_within K m a)"
    if "forward_scan m a st = Some y" for m a st y
  proof (rule forward_scan.raw_induct
      [where P = "\<lambda>m a st y. y \<noteq> Forward_trap \<longrightarrow> st \<noteq> 0 \<or> (\<exists>K. forward_within K m a)",
        OF _ that])
    fix f m a st y
    assume ih: "\<And>m a st y. f m a st = Some y \<Longrightarrow>
          y \<noteq> Forward_trap \<longrightarrow> st \<noteq> 0 \<or> (\<exists>K. forward_within K m a)"
      and step: "(if st \<noteq> 0 then Some (Frame_size st)
        else (case m a of
                None \<Rightarrow> Some Forward_trap
              | Some w \<Rightarrow>
                  if (w AND 0xffff0000) = 0x27bd0000
                  then f m (a + 4) (word_of_int (ABS (short_of w)))
                  else if w = 0x03e00008 then Some (Frame_size st)
                  else f m (a + 4) st)) = Some y"
    show "y \<noteq> Forward_trap \<longrightarrow> st \<noteq> 0 \<or> (\<exists>K. forward_within K m a)"
    proof (intro impI)
      assume y: "y \<noteq> Forward_trap"
      show "st \<noteq> 0 \<or> (\<exists>K. forward_within K m a)"
      proof (cases "st = 0")
        case False
        then show ?thesis by simp
      next
        case True
        with step y obtain w where w: "m a = Some w"
          by (cases "m a") auto
        show ?thesis
        proof (cases "(w AND 0xffff0000) = 0x27bd0000")
          case adj: True
          with step True w have "f m (a + 4) (word_of_int (ABS (short_of w))) = Some y"
            by simp
          from ih [OF this] y
          have "(word_of_int (ABS (short_of w)) :: size_t) \<noteq> 0 \<or> (\<exists>K. forward_within K m (a + 4))"
            by blast
          then show ?thesis
          proof
            assume "(word_of_int (ABS (short_of w)) :: size_t) \<noteq> 0"
            with w adj have "forward_within (Suc 0) m a" by simp
            then show ?thesis by blast
          next
            assume "\<exists>K. forward_within K m (a + 4)"
            then obtain K where "forward_within K m (a + 4)" ..
            with w adj have "forward_within (Suc K) m a" by simp
            then show ?thesis by blast
          qed
        next
          case noadj: False
          show ?thesis
          proof (cases "w = 0x03e00008")
            case ret: True
            with w noadj have "forward_within (Suc 0) m a" by simp
            then show ?thesis by blast
          next
            case False
            with step True w noadj have "f m (a + 4) st = Some y" by simp
            from ih [OF this] y True obtain K where "forward_within K m (a + 4)" by blast
            with w noadj have "forward_within (Suc K) m a" by simp
            then show ?thesis by blast
          qed
        qed
      qed
    qed
  qed
  with assms show ?thesis by blast
qed

lemma backward_within_scan:
  "backward_within K mem a ro ss \<Longrightarrow>
   \<exists>r. backward_scan mem a ro ss = Some r \<and> r \<noteq> Backward_trap"
proof (induction K arbitrary: a ro ss)
  case 0
  then show ?case by (simp add: backward_scan_found)
next
  case (Suc K)
  show ?case
  proof (cases "ro \<noteq> 0 \<and> ss \<noteq> 0")
    case True
    then show ?thesis by (simp add: backward_scan_found)
  next
    case unfound: False
    with Suc.prems obtain w where w: "mem a = Some w"
      by (cases "mem a") simp_all
    show ?thesis
    proof (cases "(w AND 0xffff0000) = 0x27bd0000")
      case adj: True
      with Suc.prems unfound w
      have "backward_within K mem (a - 4) ro (word_of_int (ABS (short_of w)))" by simp
      then obtain r where "backward_scan mem (a - 4) ro (word_of_int (ABS (short_of w))) = Some r"
        and "r \<noteq> Backward_trap"
        using Suc.IH by blast
      with unfound w adj show ?thesis by (subst backward_scan.simps) auto
    next
      case noadj: False
      show ?thesis
      proof (cases "(w AND 0xffff0000) = 0xafbf0000")
        case sw: True
        with Suc.prems unfound w noadj
        have "backward_within K mem (a - 4) (word_of_int (short_of w)) ss" by simp
        then obtain r where "backward_scan mem (a - 4) (word_of_int (short_of w)) ss = Some r"
          and "r \<noteq> Backward_trap"
          using Suc.IH by blast
        with unfound w noadj sw show ?thesis by (subst backward_scan.simps) auto
      next
        case nosw: False
        show ?thesis
        proof (cases "(w AND 0xffff0000) = 0x3c1c0000")
          case True
          with unfound w noadj nosw show ?thesis by (subst backward_scan.simps) auto
        next
          case False
          with Suc.prems unfound w noadj nosw
          have "backward_within K mem (a - 4) ro ss" by simp
          then obtain r where "backward_scan mem (a - 4) ro ss = Some r"
            and "r \<noteq> Backward_trap"
            using Suc.IH by blast
          with unfound w noadj nosw False show ?thesis by (subst backward_scan.simps) auto
        qed
      qed
    qed
  qed
qed

lemma backward_scan_within:
  assumes "backward_scan mem a ro ss = Some r" and "r \<noteq> Backward_trap"
  shows "\<exists>K. backward_within K mem a ro ss"
proof -
  have "y \<noteq> Backward_trap \<longrightarrow> (\<exists>K. backward_within K m a ro ss)"
    if "backward_scan m a ro ss = Some y" for m a ro ss y
  proof (rule backward_scan.raw_induct
      [where P = "\<lambda>m a ro ss y. y \<noteq> Backward_trap \<longrightarrow> (\<exists>K. backward_within K m a ro ss)",
        OF _ that])
    fix f m a ro ss y
    assume ih: "\<And>m a ro ss y. f m a ro ss = Some y \<Longrightarrow>
          y \<noteq> Backward_trap \<longrightarrow> (\<exists>K. backward_within K m a ro ss)"
      and step: "(if \<not> (ro = 0 \<or> ss = 0) then Some (Found ro ss)
        else (case m a of
                None \<Rightarrow> Some Backward_trap
              | Some w \<Rightarrow>
                  if (w AND 0xffff0000) = 0x27bd0000
                  then f m (a - 4) ro (word_of_int (ABS (short_of w)))
                  else if (w AND 0xffff0000) = 0xafbf0000
                  then f m (a - 4) (word_of_int (short_of w)) ss
                  else if (w AND 0xffff0000) = 0x3c1c0000 then Some Sentinel
                  else f m (a - 4) ro ss)) = Some y"
    show "y \<noteq> Backward_trap \<longrightarrow> (\<exists>K. backward_within K m a ro ss)"
    proof (intro impI)
      assume y: "y \<noteq> Backward_trap"
      show "\<exists>K. backward_within K m a ro ss"
      proof (cases "ro \<noteq> 0 \<and> ss \<noteq> 0")
        case True
        then have "backward_within 0 m a ro ss" by simp
        then show ?thesis by blast
      next
        case unfound: False
        with step y obtain w where w: "m a = Some w"
          by (cases "m a") auto
        show ?thesis
        proof (cases "(w AND 0xffff0000) = 0x27bd0000")
          case adj: True
          with step unfound w have "f m (a - 4) ro (word_of_int (ABS (short_of w))) = Some y"
            by auto
          from ih [OF this] y obtain K
            where "backward_within K m (a - 4) ro (word_of_int (ABS (short_of w)))" by blast
          with w adj have "backward_within (Suc K) m a ro ss" by simp
          then show ?thesis by blast
        next
          case noadj: False
          show ?thesis
          proof (cases "(w AND 0xffff0000) = 0xafbf0000")
            case sw: True
            with step unfound w noadj have "f m (a - 4) (word_of_int (short_of w)) ss = Some y"
              by auto
            from ih [OF this] y obtain K
              where "backward_within K m (a - 4) (word_of_int (short_of w)) ss" by blast
            with w noadj sw have "backward_within (Suc K) m a ro ss" by simp
            then show ?thesis by blast
          next
            case nosw: False
            show ?thesis
            proof (cases "(w AND 0xffff0000) = 0x3c1c0000")
              case True
              with w noadj nosw have "backward_within (Suc 0) m a ro ss" by simp
              then show ?thesis by blast
            next
              case False
              with step unfound w noadj nosw have "f m (a - 4) ro ss = Some y"
                by auto
              from ih [OF this] y obtain K where "backward_within K m (a - 4) ro ss" by blast
              with w noadj nosw have "backward_within (Suc K) m a ro ss" by simp
              then show ?thesis by blast
            qed
          qed
        qed
      qed
    qed
  qed
  with assms show ?thesis by blast
qed

text \<open>A larger bound does as well.\<close>

lemma forward_within_mono:
  "forward_within K mem a \<Longrightarrow> K \<le> K' \<Longrightarrow> forward_within K' mem a"
proof (induction K arbitrary: K' a)
  case 0
  then show ?case by simp
next
  case (Suc K)
  from Suc.prems(2) obtain J where J: "K' = Suc J" and le: "K \<le> J"
    by (cases K') simp_all
  from Suc.prems(1) obtain w where w: "mem a = Some w"
    by (cases "mem a") simp_all
  have "forward_within K mem (a + 4) \<Longrightarrow> forward_within J mem (a + 4)"
    using Suc.IH le by blast
  with Suc.prems(1) w show ?case
    unfolding J by (auto split: if_splits)
qed

lemma backward_within_mono:
  "backward_within K mem a ro ss \<Longrightarrow> K \<le> K' \<Longrightarrow> backward_within K' mem a ro ss"
proof (induction K arbitrary: K' a ro ss)
  case 0
  then show ?case by (cases K') simp_all
next
  case (Suc K)
  from Suc.prems(2) obtain J where J: "K' = Suc J" and le: "K \<le> J"
    by (cases K') simp_all
  show ?case
  proof (cases "ro \<noteq> 0 \<and> ss \<noteq> 0")
    case True
    then show ?thesis unfolding J by simp
  next
    case False
    with Suc.prems(1) obtain w where w: "mem a = Some w"
      by (cases "mem a") auto
    have "backward_within K mem (a - 4) ro' ss' \<Longrightarrow> backward_within J mem (a - 4) ro' ss'"
      for ro' ss'
      using Suc.IH le by blast
    with Suc.prems(1) False w show ?thesis
      unfolding J by (auto split: if_splits)
  qed
qed

lemma walk_within_mono:
  "walk_within K mem n ra sp \<Longrightarrow> K \<le> K' \<Longrightarrow> walk_within K' mem n ra sp"
proof (induction n arbitrary: ra sp)
  case 0
  then show ?case by simp
next
  case (Suc n)
  show ?case
  proof (cases "ra = 0")
    case True
    then show ?thesis by simp
  next
    case False
    with Suc.prems have b: "backward_within K mem ra 0 0" by simp
    then have b': "backward_within K' mem ra 0 0"
      using Suc.prems(2) by (rule backward_within_mono)
    have "walk_within K mem n ra' sp' \<Longrightarrow> walk_within K' mem n ra' sp'" for ra' sp'
      using Suc.IH Suc.prems(2) by blast
    with Suc.prems(1) False b' show ?thesis
      by (auto split: option.splits scan_result.splits)
  qed
qed

text \<open>Where the function starts with a sentinel in readable code, the backward scan ends.\<close>

lemma sentinel_below_within:
  "sentinel_below K mem a \<Longrightarrow> backward_within K mem a ro ss"
proof (induction K arbitrary: a ro ss)
  case 0
  then show ?case by simp
next
  case (Suc K)
  from Suc.prems obtain w where w: "mem a = Some w"
    by (cases "mem a") simp_all
  have "sentinel_below K mem (a - 4) \<Longrightarrow> backward_within K mem (a - 4) ro' ss'" for ro' ss'
    using Suc.IH by blast
  with Suc.prems w show ?case
    by auto
qed

text \<open>The loop over the frames.\<close>

lemma walk_within_pos:
  "0 < n \<Longrightarrow>
   walk_within K mem n ra sp =
     (ra = 0 \<or>
      (backward_within K mem ra 0 0 \<and>
       (case backward_scan mem ra 0 0 of
          Some (Found ra_offset stack_size) \<Rightarrow>
            (case mem (sp + ra_offset) of
               None \<Rightarrow> False
             | Some next_ra \<Rightarrow> walk_within K mem (n - 1) next_ra (sp + stack_size))
        | _ \<Rightarrow> True)))"
  by (cases n) (simp_all cong: option.case_cong scan_result.case_cong)

lemma walk_within_next:
  assumes "depth < sz"
  shows "walk_within K mem (nat (sz - depth)) ra sp =
     (ra = 0 \<or>
      (backward_within K mem ra 0 0 \<and>
       (case backward_scan mem ra 0 0 of
          Some (Found ra_offset stack_size) \<Rightarrow>
            (case mem (sp + ra_offset) of
               None \<Rightarrow> False
             | Some next_ra \<Rightarrow>
                 walk_within K mem (nat (sz - (depth + 1))) next_ra (sp + stack_size))
        | _ \<Rightarrow> True)))"
proof -
  have "nat (sz - depth) = Suc (nat (sz - (depth + 1)))"
    using assms by simp
  then show ?thesis
    by (simp only: walk_within.simps)
qed

lemma walk_unwind:
  "walk_within K mem (nat (sz - depth)) ra sp \<Longrightarrow>
   \<exists>b n. unwind mem sz buffer depth ra sp = Return b n"
proof (induction mem sz buffer depth ra sp rule: unwind.induct)
  case (1 mem sz buffer depth ra sp)
  show ?case
  proof (cases "depth < sz \<and> ra \<noteq> 0")
    case False
    have "unwind mem sz buffer depth ra sp = Return (Some buffer) depth"
      by (subst unwind.simps) (simp only: False if_False)
    then show ?thesis by simp
  next
    case True
    then have less: "depth < sz" by simp
    from "1.prems" True have w: "backward_within K mem ra 0 0 \<and>
       (case backward_scan mem ra 0 0 of
          Some (Found ra_offset stack_size) \<Rightarrow>
            (case mem (sp + ra_offset) of
               None \<Rightarrow> False
             | Some next_ra \<Rightarrow> walk_within K mem (nat (sz - (depth + 1))) next_ra (sp + stack_size))
        | _ \<Rightarrow> True)"
      by (simp only: walk_within_next [OF less] simp_thms)
    then obtain r where r: "backward_scan mem ra 0 0 = Some r" and nt: "r \<noteq> Backward_trap"
      using backward_within_scan by blast
    show ?thesis
    proof (cases r)
      case Sentinel
      with True r show ?thesis by (subst unwind.simps) simp
    next
      case Backward_trap
      with nt show ?thesis by simp
    next
      case (Found ro ss)
      with w r obtain next_ra where load: "mem (sp + ro) = Some next_ra"
        and rest: "walk_within K mem (nat (sz - (depth + 1))) next_ra (sp + ss)"
        by (cases "mem (sp + ro)") simp_all
      have ih: "\<exists>b n. unwind mem sz (buffer(nat depth := ra)) (depth + 1) next_ra (sp + ss)
                 = Return b n"
        by (rule "1.IH" [OF True r Found load rest])
      have eq: "unwind mem sz buffer depth ra sp =
          unwind mem sz (buffer(nat depth := ra)) (depth + 1) next_ra (sp + ss)"
        using True r Found load by (subst unwind.simps) simp
      show ?thesis
        unfolding eq by (rule ih)
    qed
  qed
qed

lemma unwind_walk:
  "unwind mem sz buffer depth ra sp = Return b n \<Longrightarrow>
   \<exists>K. walk_within K mem (nat (sz - depth)) ra sp"
proof (induction mem sz buffer depth ra sp rule: unwind.induct)
  case (1 mem sz buffer depth ra sp)
  show ?case
  proof (cases "depth < sz \<and> ra \<noteq> 0")
    case False
    show ?thesis
    proof (cases "depth < sz")
      case True
      with False have "ra = 0" by simp
      moreover have "0 < nat (sz - depth)" using True by simp
      ultimately have "walk_within 0 mem (nat (sz - depth)) ra sp"
        by (simp add: walk_within_pos)
      then show ?thesis by blast
    next
      case False
      then have "nat (sz - depth) = 0" by simp
      then have "walk_within 0 mem (nat (sz - depth)) ra sp" by simp
      then show ?thesis by blast
    qed
  next
    case True
    then have less: "depth < sz" by simp
    from "1.prems" True obtain r where r: "backward_scan mem ra 0 0 = Some r"
      by (subst (asm) unwind.simps) (cases "backward_scan mem ra 0 0", simp_all)
    from "1.prems" True r have nt: "r \<noteq> Backward_trap"
      by (subst (asm) unwind.simps) auto
    from backward_scan_within [OF r nt] obtain K1 where K1: "backward_within K1 mem ra 0 0" ..
    show ?thesis
    proof (cases r)
      case Sentinel
      with K1 r have "walk_within K1 mem (nat (sz - depth)) ra sp"
        by (simp add: walk_within_next [OF less])
      then show ?thesis by blast
    next
      case Backward_trap
      with nt show ?thesis by simp
    next
      case (Found ro ss)
      from "1.prems" True r Found obtain next_ra where load: "mem (sp + ro) = Some next_ra"
        by (subst (asm) unwind.simps) (cases "mem (sp + ro)", simp_all)
      have eq: "unwind mem sz buffer depth ra sp =
          unwind mem sz (buffer(nat depth := ra)) (depth + 1) next_ra (sp + ss)"
        using True r Found load by (subst unwind.simps) simp
      have "\<exists>K. walk_within K mem (nat (sz - (depth + 1))) next_ra (sp + ss)"
        by (rule "1.IH" [OF True r Found load "1.prems" [unfolded eq]])
      then obtain K2 where K2: "walk_within K2 mem (nat (sz - (depth + 1))) next_ra (sp + ss)" ..
      have "backward_within (max K1 K2) mem ra 0 0"
        using K1 by (rule backward_within_mono) simp
      moreover have "walk_within (max K1 K2) mem (nat (sz - (depth + 1))) next_ra (sp + ss)"
        using K2 by (rule walk_within_mono) simp
      ultimately have "walk_within (max K1 K2) mem (nat (sz - depth)) ra sp"
        using r Found load by (simp add: walk_within_next [OF less])
      then show ?thesis by blast
    qed
  qed
qed

text \<open>The ways in which the loop returns.\<close>

lemma frame_at_step:
  "ra \<noteq> 0 \<Longrightarrow> backward_scan mem ra 0 0 = Some (Found ro ss) \<Longrightarrow> mem (sp + ro) = Some next_ra \<Longrightarrow>
   0 < i \<Longrightarrow> frame_at mem ra sp i = frame_at mem next_ra (sp + ss) (i - 1)"
  by (cases i) simp_all

lemma unwind_ways:
  "0 \<le> depth \<Longrightarrow> depth \<le> sz \<Longrightarrow> unwind mem sz buffer depth ra sp = Return b n \<Longrightarrow>
   depth \<le> n \<and>
   (n = sz
    \<or> (\<exists>s. frame_at mem ra sp (nat (n - depth)) = Some (0, s))
    \<or> (depth < n \<and> (\<exists>r s. frame_at mem ra sp (nat (n - depth) - 1) = Some (r, s) \<and> r \<noteq> 0
                          \<and> backward_scan mem r 0 0 = Some Sentinel)))"
proof (induction mem sz buffer depth ra sp rule: unwind.induct)
  case (1 mem sz buffer depth ra sp)
  show ?case
  proof (cases "depth < sz \<and> ra \<noteq> 0")
    case False
    have "unwind mem sz buffer depth ra sp = Return (Some buffer) depth"
      by (subst unwind.simps) (simp only: False if_False)
    with "1.prems" have n: "n = depth" by simp
    show ?thesis
    proof (cases "depth < sz")
      case True
      with False have "ra = 0" by simp
      then show ?thesis using n by simp
    next
      case False
      with "1.prems" n show ?thesis by simp
    qed
  next
    case True
    from "1.prems" True obtain r where r: "backward_scan mem ra 0 0 = Some r"
      by (subst (asm) unwind.simps) (cases "backward_scan mem ra 0 0", simp_all)
    show ?thesis
    proof (cases r)
      case Sentinel
      with "1.prems" True r have "n = depth + 1"
        by (subst (asm) unwind.simps) simp
      with True r Sentinel show ?thesis by simp
    next
      case Backward_trap
      with "1.prems" True r show ?thesis
        by (subst (asm) unwind.simps) simp
    next
      case (Found ro ss)
      from "1.prems" True r Found obtain next_ra where load: "mem (sp + ro) = Some next_ra"
        by (subst (asm) unwind.simps) (cases "mem (sp + ro)", simp_all)
      have eq: "unwind mem sz buffer depth ra sp =
          unwind mem sz (buffer(nat depth := ra)) (depth + 1) next_ra (sp + ss)"
        using True r Found load by (subst unwind.simps) simp
      have ih: "depth + 1 \<le> n \<and>
         (n = sz
          \<or> (\<exists>s. frame_at mem next_ra (sp + ss) (nat (n - (depth + 1))) = Some (0, s))
          \<or> (depth + 1 < n \<and> (\<exists>r s. frame_at mem next_ra (sp + ss) (nat (n - (depth + 1)) - 1)
                                     = Some (r, s) \<and> r \<noteq> 0
                                   \<and> backward_scan mem r 0 0 = Some Sentinel)))"
      proof (rule "1.IH" [OF True r Found load])
        show "0 \<le> depth + 1" using "1.prems"(1) by simp
        show "depth + 1 \<le> sz" using True by simp
        show "unwind mem sz (buffer(nat depth := ra)) (depth + 1) next_ra (sp + ss) = Return b n"
          using "1.prems"(3) unfolding eq .
      qed
      then have le: "depth + 1 \<le> n" by blast
      have step: "frame_at mem ra sp i = frame_at mem next_ra (sp + ss) (i - 1)" if "0 < i" for i
        using True r Found load that by (intro frame_at_step) simp_all
      have one: "frame_at mem ra sp (nat (n - depth))
          = frame_at mem next_ra (sp + ss) (nat (n - (depth + 1)))"
      proof -
        have "nat (n - depth) - 1 = nat (n - (depth + 1))" using le by simp
        moreover have "0 < nat (n - depth)" using le by simp
        ultimately show ?thesis using step by simp
      qed
      have two: "frame_at mem ra sp (nat (n - depth) - 1)
          = frame_at mem next_ra (sp + ss) (nat (n - (depth + 1)) - 1)" if "depth + 1 < n"
      proof -
        have "nat (n - depth) - 1 - 1 = nat (n - (depth + 1)) - 1" using le by simp
        moreover have "0 < nat (n - depth) - 1" using that by simp
        ultimately show ?thesis using step [of "nat (n - depth) - 1"] by simp
      qed
      from ih one two le show ?thesis
        by auto
    qed
  qed
qed

text \<open>The whole capture, for a call that passes the guard.\<close>

lemma capture_returns_iff:
  assumes pass: "\<not> (sz \<le> 0 \<or> buffer = None)"
  shows "(\<exists>b n. backtrace_mips32 mem entry ra sp buffer sz = Return b n)
           \<longleftrightarrow> (\<exists>K. scans_end K mem entry ra sp sz)"
proof
  assume "\<exists>b n. backtrace_mips32 mem entry ra sp buffer sz = Return b n"
  then obtain b n where ret: "backtrace_mips32 mem entry ra sp buffer sz = Return b n"
    by blast
  from ret pass obtain s where fwd: "forward_scan mem entry 0 = Some (Frame_size s)"
    and loop: "unwind mem sz (the buffer) 0 ra (sp + s) = Return b n"
    by (auto simp add: backtrace_mips32_def split: option.splits forward_result.splits)
  from forward_scan_within [OF fwd] obtain K1 where K1: "forward_within K1 mem entry" ..
  from unwind_walk [OF loop] obtain K2 where K2: "walk_within K2 mem (nat sz) ra (sp + s)"
    by auto
  have "forward_within (max K1 K2) mem entry"
    using K1 by (rule forward_within_mono) simp
  moreover have "walk_within (max K1 K2) mem (nat sz) ra (sp + s)"
    using K2 by (rule walk_within_mono) simp
  ultimately have "scans_end (max K1 K2) mem entry ra sp sz"
    using fwd by (simp add: scans_end_def)
  then show "\<exists>K. scans_end K mem entry ra sp sz" ..
next
  assume "\<exists>K. scans_end K mem entry ra sp sz"
  then obtain K where K: "scans_end K mem entry ra sp sz" ..
  then obtain s where fwd: "forward_scan mem entry 0 = Some (Frame_size s)"
    and walk: "walk_within K mem (nat sz) ra (sp + s)"
    by (auto simp add: scans_end_def split: option.splits forward_result.splits)
  have "walk_within K mem (nat (sz - 0)) ra (sp + s)"
    using walk by simp
  then have "\<exists>b n. unwind mem sz (the buffer) 0 ra (sp + s) = Return b n"
    by (rule walk_unwind)
  with pass fwd show "\<exists>b n. backtrace_mips32 mem entry ra sp buffer sz = Return b n"
    by (simp add: backtrace_mips32_def)
qed

lemma capture_ways:
  assumes ret: "backtrace_mips32 mem entry ra sp buffer sz = Return b n"
  shows "(sz \<le> 0 \<or> buffer = None) \<and> n = 0
         \<or> n = sz
         \<or> (\<exists>s. frame mem entry ra sp (nat n) = Some (0, s))
         \<or> (0 < n \<and> (\<exists>r s. frame mem entry ra sp (nat n - 1) = Some (r, s) \<and> r \<noteq> 0
                            \<and> backward_scan mem r 0 0 = Some Sentinel))"
proof (cases "sz \<le> 0 \<or> buffer = None")
  case True
  with ret show ?thesis by (simp add: backtrace_mips32_def)
next
  case False
  from ret False obtain s where fwd: "forward_scan mem entry 0 = Some (Frame_size s)"
    and loop: "unwind mem sz (the buffer) 0 ra (sp + s) = Return b n"
    by (auto simp add: backtrace_mips32_def split: option.splits forward_result.splits)
  have "0 \<le> n \<and>
   (n = sz
    \<or> (\<exists>t. frame_at mem ra (sp + s) (nat (n - 0)) = Some (0, t))
    \<or> (0 < n \<and> (\<exists>r t. frame_at mem ra (sp + s) (nat (n - 0) - 1) = Some (r, t) \<and> r \<noteq> 0
                          \<and> backward_scan mem r 0 0 = Some Sentinel)))"
    by (rule unwind_ways [OF _ _ loop]) (use False in simp_all)
  then show ?thesis
    by (simp add: frame_def fwd)
qed

text \<open>
  Over \<open>bare_mem\<close> the backward scan from \<^verbatim>\<open>0x400010\<close> reads five words of \<^verbatim>\<open>nop\<close> and
  traps below the page. Over \<open>nop_mem\<close> a backward scan never ends, wherever it starts:
  it never finds a store of \<^verbatim>\<open>ra\<close>.
\<close>

lemma bare_forward: "forward_scan bare_mem 0x400100 0 = Some (Frame_size 8)"
  apply (subst forward_scan.simps)
  apply (simp add: bare_mem_def short_of_def ABS_def)
  apply (subst forward_scan.simps)
  apply simp
  done

lemma bare_backward: "backward_scan bare_mem 0x400010 0 0 = Some Backward_trap"
  by (simp add: backward_scan.simps bare_mem_def)

lemma nop_forward: "forward_scan nop_mem 0x400100 0 = Some (Frame_size 8)"
  apply (subst forward_scan.simps)
  apply (simp add: nop_mem_def short_of_def ABS_def)
  apply (subst forward_scan.simps)
  apply simp
  done

lemma nop_backward: "backward_scan nop_mem a 0 ss = None"
proof -
  have "\<not> (m = nop_mem \<and> ro = 0)" if "backward_scan m a ro ss = Some y" for m a ro ss y
  proof (rule backward_scan.raw_induct
      [where P = "\<lambda>m a ro ss y. \<not> (m = nop_mem \<and> ro = 0)", OF _ that])
    fix f m a ro ss y
    assume ih: "\<And>m a ro ss y. f m a ro ss = Some y \<Longrightarrow> \<not> (m = nop_mem \<and> ro = 0)"
      and step: "(if \<not> (ro = 0 \<or> ss = 0) then Some (Found ro ss)
        else (case m a of
                None \<Rightarrow> Some Backward_trap
              | Some w \<Rightarrow>
                  if (w AND 0xffff0000) = 0x27bd0000
                  then f m (a - 4) ro (word_of_int (ABS (short_of w)))
                  else if (w AND 0xffff0000) = 0xafbf0000
                  then f m (a - 4) (word_of_int (short_of w)) ss
                  else if (w AND 0xffff0000) = 0x3c1c0000 then Some Sentinel
                  else f m (a - 4) ro ss)) = Some y"
    show "\<not> (m = nop_mem \<and> ro = 0)"
    proof
      assume h: "m = nop_mem \<and> ro = 0"
      with step have "\<exists>ss'. f nop_mem (a - 4) 0 ss' = Some y"
        by (auto simp add: nop_mem_def split: if_splits)
      with ih show False by blast
    qed
  qed
  then have "backward_scan nop_mem a 0 ss \<noteq> Some y" for y
    by blast
  then show ?thesis
    by (cases "backward_scan nop_mem a 0 ss") blast+
qed

text \<open>
  C3, as stated, fails: the scans have no bound of their own and a capture can end in
  none of the three ways. Over \<open>bare_mem\<close> the forward scan finds the frame size, the
  first return address is stored, and the backward scan runs off the readable page: the
  process traps. Over \<open>nop_mem\<close>, where every word is readable, the same backward scan
  never ends.
\<close>

theorem backtrace_mips32_stuck:
  "backtrace_mips32 bare_mem 0x400100 0x400010 0x7fff0000 (Some blank_buffer) 64
     = Trap (Some (blank_buffer(0 := 0x400010)))
   \<and> backtrace_mips32 nop_mem 0x400100 0x400010 0x7fff0000 (Some blank_buffer) 64
     = Hang (Some (blank_buffer(0 := 0x400010)))"
  by (simp add: backtrace_mips32_def bare_forward nop_forward unwind.simps [of _ _ _ 0]
      bare_backward nop_backward)

text \<open>
  C3, amended. A capture returns exactly when its call stops at the guard or every scan
  that it starts ends within readable words (each after some finite number of them)
  and every slot from which it loads a saved return address is readable; in every
  other case it traps or never ends, for the scans have no bound of their own. A
  capture that returns has a count between 0 and \<open>max sz 0\<close> and has ended in one of
  these ways: at the guard with count 0; with \<open>sz\<close> addresses collected; at a null
  return address; or at the sentinel met by the backward scan of its last frame.
\<close>

theorem backtrace_mips32_ends:
  "((\<exists>b n. backtrace_mips32 mem entry ra sp buffer sz = Return b n)
      \<longleftrightarrow> sz \<le> 0 \<or> buffer = None \<or> (\<exists>K. scans_end K mem entry ra sp sz))
   \<and> ((\<exists>b n. backtrace_mips32 mem entry ra sp buffer sz = Return b n)
        \<or> (\<exists>b. backtrace_mips32 mem entry ra sp buffer sz = Trap b)
        \<or> (\<exists>b. backtrace_mips32 mem entry ra sp buffer sz = Hang b))
   \<and> (\<forall>b n. backtrace_mips32 mem entry ra sp buffer sz = Return b n \<longrightarrow>
         0 \<le> n \<and> n \<le> max sz 0
         \<and> ((sz \<le> 0 \<or> buffer = None) \<and> n = 0
            \<or> n = sz
            \<or> (\<exists>s. frame mem entry ra sp (nat n) = Some (0, s))
            \<or> (0 < n \<and> (\<exists>r s. frame mem entry ra sp (nat n - 1) = Some (r, s) \<and> r \<noteq> 0
                               \<and> backward_scan mem r 0 0 = Some Sentinel))))"
proof -
  have returns: "(\<exists>b n. backtrace_mips32 mem entry ra sp buffer sz = Return b n)
      \<longleftrightarrow> sz \<le> 0 \<or> buffer = None \<or> (\<exists>K. scans_end K mem entry ra sp sz)"
  proof (cases "sz \<le> 0 \<or> buffer = None")
    case True
    then show ?thesis by (auto simp add: backtrace_mips32_def)
  next
    case False
    with capture_returns_iff [OF False] show ?thesis by blast
  qed
  have outcome: "(\<exists>b n. backtrace_mips32 mem entry ra sp buffer sz = Return b n)
        \<or> (\<exists>b. backtrace_mips32 mem entry ra sp buffer sz = Trap b)
        \<or> (\<exists>b. backtrace_mips32 mem entry ra sp buffer sz = Hang b)"
    by (cases "backtrace_mips32 mem entry ra sp buffer sz") simp_all
  have ways: "0 \<le> n \<and> n \<le> max sz 0
         \<and> ((sz \<le> 0 \<or> buffer = None) \<and> n = 0
            \<or> n = sz
            \<or> (\<exists>s. frame mem entry ra sp (nat n) = Some (0, s))
            \<or> (0 < n \<and> (\<exists>r s. frame mem entry ra sp (nat n - 1) = Some (r, s) \<and> r \<noteq> 0
                               \<and> backward_scan mem r 0 0 = Some Sentinel)))"
    if ret: "backtrace_mips32 mem entry ra sp buffer sz = Return b n" for b n
  proof -
    have "case backtrace_mips32 mem entry ra sp buffer sz of
        Return b n \<Rightarrow> 0 \<le> n \<and> n \<le> max sz 0 \<and> untouched_from (nat n) buffer b
      | Trap b \<Rightarrow> untouched_from (nat (max sz 0)) buffer b
      | Hang b \<Rightarrow> untouched_from (nat (max sz 0)) buffer b"
      by (rule capture_bounds)
    with ret have "0 \<le> n \<and> n \<le> max sz 0" by simp
    with capture_ways [OF ret] show ?thesis by blast
  qed
  from returns outcome ways show ?thesis by blast
qed

text \<open>
  The small process image, three times: 64 frames allowed (the capture ends at the
  sentinel of the second frame), one frame allowed (it ends with one address
  collected), and a call from \<^verbatim>\<open>0x4000f8\<close> with the stack pointer at \<^verbatim>\<open>0x7fff0010\<close>, where
  the forward scan reads three words and the slot of the saved return address holds
  null.
\<close>

lemma four: "(4 :: nat) = Suc (Suc (Suc (Suc 0)))"
  by simp

lemma demo_within:
  "forward_within 4 demo_mem 0x400100"
  "forward_within 4 demo_mem 0x4000f8"
  "backward_within 4 demo_mem 0x400010 0 0"
  "backward_within 4 demo_mem 0x400210 0 0"
  unfolding four by (simp_all add: demo_mem_def short_of_def ABS_def)

lemma demo_forward_3: "forward_scan demo_mem 0x4000f8 0 = Some (Frame_size 8)"
  apply (subst forward_scan.simps)
  apply (simp add: demo_mem_def)
  apply (subst forward_scan.simps)
  apply (simp add: demo_mem_def)
  apply (subst forward_scan.simps)
  apply (simp add: demo_mem_def short_of_def ABS_def)
  apply (subst forward_scan.simps)
  apply simp
  done

lemma demo_scans_end:
  "scans_end 4 demo_mem 0x400100 0x400010 0x7fff0000 64"
  "scans_end 4 demo_mem 0x400100 0x400010 0x7fff0000 1"
  "scans_end 4 demo_mem 0x4000f8 0x400010 0x7fff0010 64"
  by (simp_all add: scans_end_def demo_forward demo_forward_3 demo_within walk_within_pos
      demo_backward_1 demo_backward_2 demo_mem_def)

lemma demo_capture_1:
  "backtrace_mips32 demo_mem 0x400100 0x400010 0x7fff0000 (Some blank_buffer) 1
     = Return (Some (blank_buffer(0 := 0x400010))) 1"
  apply (simp add: backtrace_mips32_def demo_forward)
  apply (subst unwind.simps)
  apply (simp add: demo_backward_1 demo_mem_def)
  apply (subst unwind.simps)
  apply simp
  done

lemma demo_capture_null:
  "backtrace_mips32 demo_mem 0x4000f8 0x400010 0x7fff0010 (Some blank_buffer) 64
     = Return (Some (blank_buffer(0 := 0x400010))) 1"
  apply (simp add: backtrace_mips32_def demo_forward_3)
  apply (subst unwind.simps)
  apply (simp add: demo_backward_1 demo_mem_def)
  apply (subst unwind.simps)
  apply simp
  done

lemma demo_frame_1:
  "frame demo_mem 0x400100 0x400010 0x7fff0000 1 = Some (0x400210, 0x7fff0028)"
  "frame demo_mem 0x4000f8 0x400010 0x7fff0010 1 = Some (0, 0x7fff0038)"
  by (simp_all add: frame_def demo_forward demo_forward_3 demo_backward_1 demo_mem_def)

theorem backtrace_mips32_ends_witness:
  "scans_end 4 demo_mem 0x400100 0x400010 0x7fff0000 64
   \<and> backtrace_mips32 demo_mem 0x400100 0x400010 0x7fff0000 (Some blank_buffer) 64
       = Return (Some (blank_buffer(0 := 0x400010, 1 := 0x400210))) 2
   \<and> frame demo_mem 0x400100 0x400010 0x7fff0000 1 = Some (0x400210, 0x7fff0028)
   \<and> backward_scan demo_mem 0x400210 0 0 = Some Sentinel
   \<and> scans_end 4 demo_mem 0x400100 0x400010 0x7fff0000 1
   \<and> backtrace_mips32 demo_mem 0x400100 0x400010 0x7fff0000 (Some blank_buffer) 1
       = Return (Some (blank_buffer(0 := 0x400010))) 1
   \<and> scans_end 4 demo_mem 0x4000f8 0x400010 0x7fff0010 64
   \<and> backtrace_mips32 demo_mem 0x4000f8 0x400010 0x7fff0010 (Some blank_buffer) 64
       = Return (Some (blank_buffer(0 := 0x400010))) 1
   \<and> frame demo_mem 0x4000f8 0x400010 0x7fff0010 1 = Some (0, 0x7fff0038)
   \<and> (\<exists>b n. backtrace_mips32 demo_mem 0x400100 0x400010 0x7fff0000 (Some blank_buffer) 64
          = Return b n \<and> 0 \<le> n \<and> n \<le> 64)"
proof -
  note ends = backtrace_mips32_ends [where mem = demo_mem and entry = "0x400100"
      and ra = "0x400010" and sp = "0x7fff0000" and buffer = "Some blank_buffer" and sz = 64]
  from ends demo_scans_end(1) obtain b n
    where ret: "backtrace_mips32 demo_mem 0x400100 0x400010 0x7fff0000 (Some blank_buffer) 64
          = Return b n"
    by blast
  with ends have "0 \<le> n \<and> n \<le> max 64 0" by blast
  with ret have "\<exists>b n. backtrace_mips32 demo_mem 0x400100 0x400010 0x7fff0000 (Some blank_buffer) 64
          = Return b n \<and> 0 \<le> n \<and> n \<le> 64"
    by auto
  then show ?thesis
    using demo_scans_end demo_capture demo_capture_1 demo_capture_null demo_frame_1 demo_backward_2
    by simp
qed


section \<open>Time differences and the timer\<close>

lemma sint_sub_exact:
  fixes a b :: "32 word"
  assumes "- 2147483648 \<le> sint a - sint b" "sint a - sint b \<le> 2147483647"
  shows "sint (a - b) = sint a - sint b"
  using assms by (simp add: sint_word_diff signed_take_bit_int_eq_self)

lemma sint_add_exact:
  fixes a b :: "32 word"
  assumes "- 2147483648 \<le> sint a + sint b" "sint a + sint b \<le> 2147483647"
  shows "sint (a + b) = sint a + sint b"
  using assms by (simp add: sint_word_add signed_take_bit_int_eq_self)

text \<open>
  The struct that \<^verbatim>\<open>result\<close> points to after the call, whatever the aliasing of the
  three pointers: every field is read before the assignment that overwrites it.
\<close>

lemma measure_diff_value:
  "measure_diff h s e r r =
     (if tv_nsec (h e) - tv_nsec (h s) <s 0
      then (h r)\<lparr>tv_sec := tv_sec (h e) - tv_sec (h s) - 1,
                  tv_nsec := tv_nsec (h e) - tv_nsec (h s) + 1000000000\<rparr>
      else (h r)\<lparr>tv_sec := tv_sec (h e) - tv_sec (h s),
                  tv_nsec := tv_nsec (h e) - tv_nsec (h s)\<rparr>)"
  by (simp add: measure_diff_def set_tv_sec_def set_tv_nsec_def Let_def)

lemma measure_diff_frame: "p \<noteq> r \<Longrightarrow> measure_diff h s e r p = h p"
  by (simp add: measure_diff_def set_tv_sec_def set_tv_nsec_def Let_def)

text \<open>
  For time values in normal form with \<open>start \<le> end\<close>, \<^verbatim>\<open>measure_diff\<close> leaves in
  \<^verbatim>\<open>*result\<close> exactly \<open>end - start\<close>, again in normal form.
\<close>

lemma measure_diff_exact_normalized:
  assumes s: "normalized (h s)" and e: "normalized (h e)"
    and le: "timespec_cmp (h s) (h e) \<le> 0"
  shows "nanoseconds (measure_diff h s e r r) = nanoseconds (h e) - nanoseconds (h s)
         \<and> normalized (measure_diff h s e r r)
         \<and> sint (tv_sec (measure_diff h s e r r)) \<le> sint (tv_sec (h e)) - sint (tv_sec (h s))"
proof -
  define ss where "ss = sint (tv_sec (h s))"
  define sn where "sn = sint (tv_nsec (h s))"
  define es where "es = sint (tv_sec (h e))"
  define en where "en = sint (tv_nsec (h e))"
  have rng: "0 \<le> ss" "0 \<le> sn" "sn < 1000000000" "0 \<le> es" "0 \<le> en" "en < 1000000000"
    using s e by (simp_all add: normalized_def word_sle_eq word_sless_alt ss_def sn_def es_def en_def)
  have up: "ss \<le> 2147483647" "es \<le> 2147483647"
    using sint_lt [of "tv_sec (h s)"] sint_lt [of "tv_sec (h e)"] by (simp_all add: ss_def es_def)
  have ord: "ss < es \<or> (ss = es \<and> sn \<le> en)"
    using le by (auto simp add: timespec_cmp_def word_sless_alt ss_def sn_def es_def en_def
        word_eq_iff_signed [where ?'a = int] split: if_splits)
  have dsec: "sint (tv_sec (h e) - tv_sec (h s)) = es - ss"
    using rng up ord by (simp add: sint_sub_exact ss_def es_def)
  have dnsec: "sint (tv_nsec (h e) - tv_nsec (h s)) = en - sn"
    using rng by (simp add: sint_sub_exact sn_def en_def)
  show ?thesis
  proof (cases "en - sn < 0")
    case True
    then have lt: "ss < es" using ord by auto
    have a: "sint (tv_sec (h e) - tv_sec (h s) - 1) = es - ss - 1"
      using lt rng up dsec by (simp add: sint_sub_exact)
    have b: "sint (tv_nsec (h e) - tv_nsec (h s) + 1000000000) = en - sn + 1000000000"
      using True rng dnsec by (simp add: sint_add_exact)
    from True a b dnsec lt rng show ?thesis
      by (simp add: measure_diff_value nanoseconds_def normalized_def word_sle_eq word_sless_alt
          ss_def [symmetric] sn_def [symmetric] es_def [symmetric] en_def [symmetric])
  next
    case False
    with dsec dnsec ord rng show ?thesis
      by (auto simp add: measure_diff_value nanoseconds_def normalized_def word_sle_eq word_sless_alt
          ss_def [symmetric] sn_def [symmetric] es_def [symmetric] en_def [symmetric])
  qed
qed

subsection \<open>Milliseconds\<close>

lemma sint_up64: "sint (scast (w :: 32 word) :: 64 word) = sint w"
  by (rule sint_up_scast) (simp add: is_up)

lemma sint_add64:
  fixes a b :: "64 word"
  assumes "- 9223372036854775808 \<le> sint a + sint b" "sint a + sint b \<le> 9223372036854775807"
  shows "sint (a + b) = sint a + sint b"
  using assms by (simp add: sint_word_add signed_take_bit_int_eq_self)

text \<open>
  \<^verbatim>\<open>timespec_to_ms\<close> is exact as long as the 32-bit product
  \<^verbatim>\<open>tv_sec * MILLISECONDS_IN_SECOND\<close> does not overflow, that is up to 2147483 seconds.
\<close>

lemma timespec_to_ms_exact:
  assumes n: "normalized t" and r: "sint (tv_sec t) \<le> 2147483"
  shows "sint (timespec_to_ms t) = sint (tv_sec t) * 1000 + sint (tv_nsec t) div 1000000"
proof -
  have rng: "0 \<le> sint (tv_sec t)" "0 \<le> sint (tv_nsec t)" "sint (tv_nsec t) < 1000000000"
    using n by (simp_all add: normalized_def word_sle_eq word_sless_alt)
  have p: "sint (tv_sec t * MILLISECONDS_IN_SECOND) = sint (tv_sec t) * 1000"
    using rng r by (simp add: MILLISECONDS_IN_SECOND_def sint_word_mult signed_take_bit_int_eq_self)
  have d0: "sint (tv_nsec t) sdiv 1000000 = sint (tv_nsec t) div 1000000"
    using rng by (simp add: signed_divide_int_def sgn_if)
  have dr: "0 \<le> sint (tv_nsec t) div 1000000" "sint (tv_nsec t) div 1000000 < 1000"
    using rng by simp_all
  have d: "sint (long_div (tv_nsec t) NANOSECONDS_IN_MILLISECOND) = sint (tv_nsec t) div 1000000"
    using dr by (simp add: long_div_def NANOSECONDS_IN_MILLISECOND_def d0 sint_sbintrunc'
        signed_take_bit_int_eq_self)
  show ?thesis
    using p d rng r dr
    by (simp add: timespec_to_ms_def Let_def sint_up64 sint_add64)
qed

text \<open>
  Within that range \<^verbatim>\<open>timer_elapsed\<close> reports a non-negative number of milliseconds
  for a valid timer read at or after its start.
\<close>

lemma timer_elapsed_in_range:
  assumes v: "valid t \<noteq> 0"
    and s: "normalized (start t)" and n: "normalized now"
    and le: "timespec_cmp (start t) now \<le> 0"
    and r: "sint (tv_sec now) - sint (tv_sec (start t)) \<le> 2147483"
  shows "0 \<le> sint (timer_elapsed t now)"
proof -
  let ?h = "timer_store t now"
  have d: "normalized (measure_diff ?h Start Diff Diff Diff)
           \<and> sint (tv_sec (measure_diff ?h Start Diff Diff Diff)) \<le> 2147483"
    using measure_diff_exact_normalized [of ?h Start Diff Diff] s n le r
    by (simp add: timer_store_def)
  then have "sint (timespec_to_ms (measure_diff ?h Start Diff Diff Diff))
      = sint (tv_sec (measure_diff ?h Start Diff Diff Diff)) * 1000
        + sint (tv_nsec (measure_diff ?h Start Diff Diff Diff)) div 1000000"
    by (simp add: timespec_to_ms_exact)
  moreover have "0 \<le> sint (tv_sec (measure_diff ?h Start Diff Diff Diff))"
    "0 \<le> sint (tv_nsec (measure_diff ?h Start Diff Diff Diff))"
    using d by (simp_all add: normalized_def word_sle_eq)
  ultimately show ?thesis
    using v by (simp add: timer_elapsed_def)
qed

text \<open>
  C10. The part about \<^verbatim>\<open>measure_diff\<close> is \<open>measure_diff_exact_normalized\<close> above.
  The millisecond values that \<^verbatim>\<open>timer_elapsed\<close> and \<^verbatim>\<open>timer_remaining\<close> build from its
  result are not always non-negative: the timer and the clock readings below are in
  normal form and in order, the differences are 2147484 seconds, and the 32-bit
  product in \<^verbatim>\<open>timespec_to_ms\<close> wraps to a negative number.
\<close>

theorem timer_milliseconds_wrap:
  "valid long_timer \<noteq> 0 \<and> normalized (start long_timer) \<and> normalized late_now
   \<and> timespec_cmp (start long_timer) late_now \<le> 0
   \<and> sint (timer_elapsed long_timer late_now) = - 2147483296
   \<and> valid far_timer \<noteq> 0 \<and> normalized early_now \<and> normalized (deadline far_timer)
   \<and> timespec_cmp early_now (deadline far_timer) \<le> 0
   \<and> sint (timer_remaining far_timer early_now) = - 2147483296"
proof -
  have e: "timer_elapsed long_timer late_now = - 2147483296"
    by (simp add: timer_elapsed_def valid_def STATUS_VALID_def timespec_to_ms_def long_div_def
        MILLISECONDS_IN_SECOND_def NANOSECONDS_IN_MILLISECOND_def
        measure_diff_def set_tv_sec_def set_tv_nsec_def timer_store_def long_timer_def
        late_now_def Let_def signed_divide_int_def)
  have r: "timer_remaining far_timer early_now = - 2147483296"
    by (simp add: timer_remaining_def valid_def STATUS_VALID_def timespec_to_ms_def long_div_def
        MILLISECONDS_IN_SECOND_def NANOSECONDS_IN_MILLISECOND_def timespec_cmp_def
        measure_diff_def set_tv_sec_def set_tv_nsec_def timer_store_def far_timer_def
        early_now_def Let_def signed_divide_int_def)
  have v: "valid long_timer \<noteq> 0" "valid far_timer \<noteq> 0"
    by (simp_all add: valid_def STATUS_VALID_def long_timer_def far_timer_def)
  have n: "normalized (start long_timer)" "normalized late_now" "normalized early_now"
    "normalized (deadline far_timer)"
    by (simp_all add: normalized_def word_sle_eq word_sless_alt long_timer_def late_now_def
        far_timer_def early_now_def)
  have c: "timespec_cmp (start long_timer) late_now \<le> 0"
    "timespec_cmp early_now (deadline far_timer) \<le> 0"
    by (simp_all add: timespec_cmp_def word_sless_alt long_timer_def late_now_def
        far_timer_def early_now_def)
  have "sint (timer_elapsed long_timer late_now) = - 2147483296"
    "sint (timer_remaining far_timer early_now) = - 2147483296"
    by (simp_all add: e r)
  with v n c show ?thesis
    by blast
qed


section \<open>Symbol formatting: the two loops\<close>

text \<open>
  Both loops run over the indices \<open>0, ..., sz - 1\<close>; their results are the lists and
  sums over these indices.
\<close>

lemma fill_info_eq:
  "0 \<le> cnt \<Longrightarrow>
   fill_info dladdr array sz cnt stats info tot =
     (stats @ map (\<lambda>i. fst (dladdr (array ! i))) [nat cnt..<nat sz],
      info @ map (\<lambda>i. snd (dladdr (array ! i))) [nat cnt..<nat sz],
      tot + sum_list (map (size_at dladdr array) [nat cnt..<nat sz]))"
proof (induction dladdr array sz cnt stats info tot rule: fill_info.induct)
  case (1 dladdr array sz cnt stats info tot)
  show ?case
  proof (cases "cnt < sz")
    case False
    then have "nat sz \<le> nat cnt" by simp
    then have "[nat cnt..<nat sz] = []" by simp
    with False show ?thesis
      by (subst fill_info.simps) simp
  next
    case True
    obtain st di where d: "dladdr (array ! nat cnt) = (st, di)"
      by (cases "dladdr (array ! nat cnt)")
    have up: "[nat cnt..<nat sz] = nat cnt # [nat (cnt + 1)..<nat sz]"
      using True "1.prems" by (simp add: upt_conv_Cons nat_add_distrib)
    have ih: "fill_info dladdr array sz (cnt + 1) (stats @ [st]) (info @ [di]) (tot + line_size st di) =
       ((stats @ [st]) @ map (\<lambda>i. fst (dladdr (array ! i))) [nat (cnt + 1)..<nat sz],
        (info @ [di]) @ map (\<lambda>i. snd (dladdr (array ! i))) [nat (cnt + 1)..<nat sz],
        (tot + line_size st di) + sum_list (map (size_at dladdr array) [nat (cnt + 1)..<nat sz]))"
      by (rule "1.IH" [OF True d [symmetric] refl]) (use "1.prems" in simp)
    show ?thesis
      by (subst fill_info.simps) (simp add: True d ih up size_at_def add.assoc)
  qed
qed

lemma total_size_eq:
  "total_size dladdr array sz = sum_list (map (size_at dladdr array) [0..<nat sz])"
  by (simp add: total_size_def fill_info_eq)

lemma write_lines_Inr:
  "0 \<le> cnt \<Longrightarrow>
   write_lines array sz stats info room cnt result lastp = Inr (res, e) \<Longrightarrow>
   res = result @ map (\<lambda>i. format_line (array ! i) (stats ! i) (info ! i)) [nat cnt..<nat sz]
   \<and> e = lastp + sum_list (map (\<lambda>i. 1 + length (format_line (array ! i) (stats ! i) (info ! i)))
                 [nat cnt..<nat sz])
   \<and> (cnt < sz \<or> lastp \<le> room \<longrightarrow> e \<le> room)"
proof (induction array sz stats info room cnt result lastp rule: write_lines.induct)
  case (1 array sz stats info room cnt result lastp)
  show ?case
  proof (cases "cnt < sz")
    case False
    then have "nat sz \<le> nat cnt" by simp
    then have "[nat cnt..<nat sz] = []" by simp
    with False "1.prems"(2) show ?thesis
      by (subst (asm) write_lines.simps) simp
  next
    case True
    have up: "[nat cnt..<nat sz] = nat cnt # [nat (cnt + 1)..<nat sz]"
      using True "1.prems" by (simp add: upt_conv_Cons nat_add_distrib)
    define line where "line = format_line (array ! nat cnt) (stats ! nat cnt) (info ! nat cnt)"
    have unf: "write_lines array sz stats info room cnt result lastp =
        (if 4 * nat cnt + 4 \<le> room \<and> lastp + (1 + length line) \<le> room
         then write_lines array sz stats info room (cnt + 1) (result @ [line])
                (lastp + (1 + length line))
         else Inl cnt)"
      by (subst write_lines.simps) (simp only: True if_True Let_def line_def)
    have inside: "4 * nat cnt + 4 \<le> room \<and> lastp + (1 + length line) \<le> room"
      using "1.prems"(2) unf by (auto split: if_splits)
    have rest: "write_lines array sz stats info room (cnt + 1) (result @ [line])
        (lastp + (1 + length line)) = Inr (res, e)"
      using "1.prems"(2) unf inside by simp
    have ih: "res = (result @ [line])
            @ map (\<lambda>i. format_line (array ! i) (stats ! i) (info ! i)) [nat (cnt + 1)..<nat sz]
        \<and> e = (lastp + (1 + length line))
            + sum_list (map (\<lambda>i. 1 + length (format_line (array ! i) (stats ! i) (info ! i)))
                 [nat (cnt + 1)..<nat sz])
        \<and> (cnt + 1 < sz \<or> lastp + (1 + length line) \<le> room \<longrightarrow> e \<le> room)"
      by (rule "1.IH" [OF True line_def inside _ rest]) (use "1.prems" in simp)
    show ?thesis
      using ih inside by (simp add: up line_def)
  qed
qed

lemma write_lines_fits:
  "0 \<le> cnt \<Longrightarrow> 4 * nat sz \<le> lastp \<Longrightarrow>
   lastp + sum_list (map (\<lambda>i. 1 + length (format_line (array ! i) (stats ! i) (info ! i)))
             [nat cnt..<nat sz]) \<le> room \<Longrightarrow>
   write_lines array sz stats info room cnt result lastp =
     Inr (result @ map (\<lambda>i. format_line (array ! i) (stats ! i) (info ! i)) [nat cnt..<nat sz],
          lastp + sum_list (map (\<lambda>i. 1 + length (format_line (array ! i) (stats ! i) (info ! i)))
                 [nat cnt..<nat sz]))"
proof (induction array sz stats info room cnt result lastp rule: write_lines.induct)
  case (1 array sz stats info room cnt result lastp)
  show ?case
  proof (cases "cnt < sz")
    case False
    then have "nat sz \<le> nat cnt" by simp
    then have "[nat cnt..<nat sz] = []" by simp
    with False show ?thesis
      by (subst write_lines.simps) simp
  next
    case True
    have up: "[nat cnt..<nat sz] = nat cnt # [nat (cnt + 1)..<nat sz]"
      using True "1.prems" by (simp add: upt_conv_Cons nat_add_distrib)
    define line where "line = format_line (array ! nat cnt) (stats ! nat cnt) (info ! nat cnt)"
    have cell: "4 * nat cnt + 4 \<le> 4 * nat sz"
      using True "1.prems"(1) by simp
    have inside: "4 * nat cnt + 4 \<le> room \<and> lastp + (1 + length line) \<le> room"
      using "1.prems"(2,3) cell by (simp add: up line_def)
    have ih: "write_lines array sz stats info room (cnt + 1) (result @ [line])
        (lastp + (1 + length line)) =
       Inr ((result @ [line])
              @ map (\<lambda>i. format_line (array ! i) (stats ! i) (info ! i)) [nat (cnt + 1)..<nat sz],
            (lastp + (1 + length line))
              + sum_list (map (\<lambda>i. 1 + length (format_line (array ! i) (stats ! i) (info ! i)))
                 [nat (cnt + 1)..<nat sz]))"
      by (rule "1.IH" [OF True line_def inside]) (use "1.prems" in \<open>simp_all add: up line_def\<close>)
    have unf: "write_lines array sz stats info room cnt result lastp =
        write_lines array sz stats info room (cnt + 1) (result @ [line])
                (lastp + (1 + length line))"
      by (subst write_lines.simps) (simp only: True if_True Let_def line_def [symmetric] inside simp_thms)
    show ?thesis
      unfolding unf ih by (simp add: up line_def)
  qed
qed

lemma nth_map_upt0: "i < n \<Longrightarrow> map f [0..<n] ! i = f i"
  by simp

lemma lines_of_lists:
  "map (\<lambda>i. format_line (array ! i)
             (map (\<lambda>i. fst (dladdr (array ! i))) [0..<n] ! i)
             (map (\<lambda>i. snd (dladdr (array ! i))) [0..<n] ! i)) [0..<n]
     = map (line_at dladdr array) [0..<n]"
  by (rule map_cong) (simp_all add: line_at_def)

lemma lengths_of_lists:
  "map (\<lambda>i. 1 + length (format_line (array ! i)
             (map (\<lambda>i. fst (dladdr (array ! i))) [0..<n] ! i)
             (map (\<lambda>i. snd (dladdr (array ! i))) [0..<n] ! i))) [0..<n]
     = map (\<lambda>i. 1 + length (line_at dladdr array i)) [0..<n]"
  by (rule map_cong) (simp_all add: line_at_def)

text \<open>The function with its first loop evaluated.\<close>

lemma backtrace_symbols_unfold:
  "backtrace_symbols dladdr malloc array sz =
     (if malloc (request_size dladdr array sz)
      then (case write_lines array sz
                   (map (\<lambda>i. fst (dladdr (array ! i))) [0..<nat sz])
                   (map (\<lambda>i. snd (dladdr (array ! i))) [0..<nat sz])
                   (unat (request_size dladdr array sz)) 0 [] (nat sz * 4) of
              Inl cnt \<Rightarrow> Overrun cnt
            | Inr (result, lastp) \<Rightarrow>
                if lastp \<le> unat (request_size dladdr array sz)
                then Returned (Some \<lparr>strings = result, requested = request_size dladdr array sz,
                                     cursor = lastp\<rparr>)
                else Assert_failed)
      else Returned None)"
  by (simp only: backtrace_symbols_def request_size_def total_size_def
      fill_info_eq [OF order_refl] Let_def prod.case append_Nil nat_0 add_0 snd_conv)

lemma written_pass:
  assumes "write_lines array sz
             (map (\<lambda>i. fst (dladdr (array ! i))) [0..<nat sz])
             (map (\<lambda>i. snd (dladdr (array ! i))) [0..<nat sz])
             room 0 [] (nat sz * 4) = Inr (res, e)"
  shows "res = map (line_at dladdr array) [0..<nat sz]"
    and "e = used_size dladdr array sz"
    and "e \<le> room"
proof -
  have "res = [] @ map (\<lambda>i. format_line (array ! i)
                 (map (\<lambda>i. fst (dladdr (array ! i))) [0..<nat sz] ! i)
                 (map (\<lambda>i. snd (dladdr (array ! i))) [0..<nat sz] ! i)) [nat 0..<nat sz]
      \<and> e = nat sz * 4 + sum_list (map (\<lambda>i. 1 + length (format_line (array ! i)
                 (map (\<lambda>i. fst (dladdr (array ! i))) [0..<nat sz] ! i)
                 (map (\<lambda>i. snd (dladdr (array ! i))) [0..<nat sz] ! i))) [nat 0..<nat sz])
      \<and> (0 < sz \<or> nat sz * 4 \<le> room \<longrightarrow> e \<le> room)"
    by (rule write_lines_Inr [OF order_refl assms])
  then have w: "res = map (line_at dladdr array) [0..<nat sz]
      \<and> e = used_size dladdr array sz
      \<and> (0 < sz \<or> nat sz * 4 \<le> room \<longrightarrow> e \<le> room)"
    unfolding nat_0 append_Nil lines_of_lists lengths_of_lists used_size_def .
  show "res = map (line_at dladdr array) [0..<nat sz]"
    using w by blast
  show "e = used_size dladdr array sz"
    using w by blast
  show "e \<le> room"
  proof (cases "0 < sz")
    case True
    with w show ?thesis by blast
  next
    case False
    then have "nat sz * 4 \<le> room" by simp
    with w show ?thesis by blast
  qed
qed

lemma backtrace_symbols_eq:
  assumes "used_size dladdr array sz \<le> unat (request_size dladdr array sz)"
  shows "backtrace_symbols dladdr malloc array sz =
     (if malloc (request_size dladdr array sz)
      then Returned (Some \<lparr>strings = map (line_at dladdr array) [0..<nat sz],
                           requested = request_size dladdr array sz,
                           cursor = used_size dladdr array sz\<rparr>)
      else Returned None)"
proof -
  have "write_lines array sz
             (map (\<lambda>i. fst (dladdr (array ! i))) [0..<nat sz])
             (map (\<lambda>i. snd (dladdr (array ! i))) [0..<nat sz])
             (unat (request_size dladdr array sz)) 0 [] (nat sz * 4)
      = Inr ([] @ map (\<lambda>i. format_line (array ! i)
                 (map (\<lambda>i. fst (dladdr (array ! i))) [0..<nat sz] ! i)
                 (map (\<lambda>i. snd (dladdr (array ! i))) [0..<nat sz] ! i)) [nat 0..<nat sz],
             nat sz * 4 + sum_list (map (\<lambda>i. 1 + length (format_line (array ! i)
                 (map (\<lambda>i. fst (dladdr (array ! i))) [0..<nat sz] ! i)
                 (map (\<lambda>i. snd (dladdr (array ! i))) [0..<nat sz] ! i))) [nat 0..<nat sz]))"
  proof (rule write_lines_fits)
    show "(0 :: int) \<le> 0" by simp
    show "4 * nat sz \<le> nat sz * 4" by simp
    show "nat sz * 4 + sum_list (map (\<lambda>i. 1 + length (format_line (array ! i)
                 (map (\<lambda>i. fst (dladdr (array ! i))) [0..<nat sz] ! i)
                 (map (\<lambda>i. snd (dladdr (array ! i))) [0..<nat sz] ! i))) [nat 0..<nat sz])
          \<le> unat (request_size dladdr array sz)"
      using assms by (simp only: nat_0 lengths_of_lists used_size_def)
  qed
  then have "write_lines array sz
             (map (\<lambda>i. fst (dladdr (array ! i))) [0..<nat sz])
             (map (\<lambda>i. snd (dladdr (array ! i))) [0..<nat sz])
             (unat (request_size dladdr array sz)) 0 [] (nat sz * 4)
      = Inr (map (line_at dladdr array) [0..<nat sz], used_size dladdr array sz)"
    by (simp only: nat_0 append_Nil lines_of_lists lengths_of_lists used_size_def)
  with assms show ?thesis
    by (simp add: backtrace_symbols_unfold)
qed

subsection \<open>The size reserved for a line bounds the line\<close>

lemma hex_str_length: "n < 16 ^ k \<Longrightarrow> 0 < k \<Longrightarrow> length (hex_str n) \<le> k"
proof (induction k arbitrary: n)
  case 0
  then show ?case by simp
next
  case (Suc k)
  show ?case
  proof (cases "n < 16")
    case True
    then show ?thesis by (subst hex_str.simps) simp
  next
    case False
    then have k: "0 < k" using Suc.prems by (cases k) auto
    have "n div 16 < 16 ^ k"
      using Suc.prems by (simp add: less_mult_imp_div_less mult.commute)
    then have "length (hex_str (n div 16)) \<le> k"
      using Suc.IH k by blast
    with False show ?thesis by (subst hex_str.simps) simp
  qed
qed

lemma hex_str_word: "length (hex_str (unat (w :: 32 word))) \<le> 8"
proof -
  have "unat w < 2 ^ 32" using unsigned_less [of w] by simp
  then have "unat w < 16 ^ 8" by simp
  then show ?thesis by (rule hex_str_length) simp
qed

lemma fmt_p_length: "length (fmt_p a) \<le> 10"
  using hex_str_word [of a] by (simp add: fmt_p_def)

lemma fmt_lx_alt_length: "length (fmt_lx_alt w) \<le> 10"
  using hex_str_word [of w] by (simp add: fmt_lx_alt_def)

lemma offset_buf_length: "length (offset_buf a di) \<le> 11"
  using fmt_lx_alt_length [of "a - dli_saddr di"] fmt_lx_alt_length [of "dli_saddr di - a"]
  by (simp add: offset_buf_def)

lemma format_line_fits: "Suc (length (format_line a st di)) \<le> line_need st di"
  using fmt_p_length [of a] offset_buf_length [of a di]
  by (auto simp add: format_line_def line_need_def WORD_WIDTH_def Let_def or_empty_def
      split: option.splits)

lemma line_size_of_nat: "line_size st di = of_nat (line_need st di)"
  by (simp add: line_size_def line_need_def strlen_def split: option.splits)

lemma size_at_of_nat: "size_at dladdr array i = of_nat (need_at dladdr array i)"
  by (simp add: size_at_def need_at_def line_size_of_nat)

lemma sum_sizes_of_nat:
  "sum_list (map (size_at dladdr array) is) = (of_nat (sum_list (map (need_at dladdr array) is)) :: size_t)"
  by (induction "is") (simp_all add: size_at_of_nat)

lemma sum_lines_le:
  "sum_list (map (\<lambda>i. 1 + length (line_at dladdr array i)) is)
     \<le> sum_list (map (need_at dladdr array) is)"
proof (induction "is")
  case Nil
  then show ?case by simp
next
  case (Cons i "is")
  have "1 + length (line_at dladdr array i) \<le> need_at dladdr array i"
    using format_line_fits [of "array ! i" "fst (dladdr (array ! i))" "snd (dladdr (array ! i))"]
    by (simp add: line_at_def need_at_def)
  with Cons show ?case by simp
qed

lemma unat_of_nat32: "x < 2 ^ 32 \<Longrightarrow> unat (of_nat x :: size_t) = x"
  by (simp add: unat_of_nat)

lemma backtrace_symbols_Some:
  assumes "backtrace_symbols dladdr malloc array sz = Returned (Some blk)"
  shows "strings blk = map (line_at dladdr array) [0..<nat sz]"
    and "requested blk = request_size dladdr array sz"
    and "cursor blk = used_size dladdr array sz"
    and "cursor blk \<le> unat (requested blk)"
    and "malloc (request_size dladdr array sz)"
proof -
  let ?w = "write_lines array sz
             (map (\<lambda>i. fst (dladdr (array ! i))) [0..<nat sz])
             (map (\<lambda>i. snd (dladdr (array ! i))) [0..<nat sz])
             (unat (request_size dladdr array sz)) 0 [] (nat sz * 4)"
  from assms have m: "malloc (request_size dladdr array sz)"
    by (simp add: backtrace_symbols_unfold split: if_splits)
  from assms m obtain res e where w: "?w = Inr (res, e)"
    and blk: "blk = \<lparr>strings = res, requested = request_size dladdr array sz, cursor = e\<rparr>"
    by (cases ?w) (auto simp add: backtrace_symbols_unfold split: if_splits)
  note p = written_pass [OF w]
  show "strings blk = map (line_at dladdr array) [0..<nat sz]"
    using blk p(1) by simp
  show "requested blk = request_size dladdr array sz"
    using blk by simp
  show "cursor blk = used_size dladdr array sz"
    using blk p(2) by simp
  show "cursor blk \<le> unat (requested blk)"
    using blk p(3) by simp
  show "malloc (request_size dladdr array sz)"
    by (rule m)
qed

lemma backtrace_symbols_None:
  "backtrace_symbols dladdr malloc array sz = Returned None \<longleftrightarrow>
     \<not> malloc (request_size dladdr array sz)"
  by (cases "write_lines array sz
             (map (\<lambda>i. fst (dladdr (array ! i))) [0..<nat sz])
             (map (\<lambda>i. snd (dladdr (array ! i))) [0..<nat sz])
             (unat (request_size dladdr array sz)) 0 [] (nat sz * 4)")
    (auto simp add: backtrace_symbols_unfold split: prod.splits)

text \<open>
  The \<^verbatim>\<open>assert\<close> never fails: a write pass that reaches it has kept every store, and
  with it the cursor, inside the block.
\<close>

lemma backtrace_symbols_no_abort:
  "backtrace_symbols dladdr malloc array sz \<noteq> Assert_failed"
proof (cases "write_lines array sz
             (map (\<lambda>i. fst (dladdr (array ! i))) [0..<nat sz])
             (map (\<lambda>i. snd (dladdr (array ! i))) [0..<nat sz])
             (unat (request_size dladdr array sz)) 0 [] (nat sz * 4)")
  case (Inl cnt)
  then show ?thesis by (simp add: backtrace_symbols_unfold)
next
  case (Inr p)
  obtain res e where p: "p = (res, e)" by (cases p)
  have "e \<le> unat (request_size dladdr array sz)"
    using written_pass(3) [OF Inr [unfolded p]] .
  with Inr p show ?thesis by (simp add: backtrace_symbols_unfold)
qed

text \<open>
  Where the pointer table and the reserved sizes together stay below \<open>2 ^ 32\<close> the sums
  do not wrap, the write pass stays inside the block, and the block is returned.
\<close>

lemma request_unwrapped:
  assumes sz: "0 \<le> sz"
    and fits: "nat sz * 4 + sum_list (map (need_at dladdr array) [0..<nat sz]) < 2 ^ 32"
  shows "unat (request_size dladdr array sz)
           = nat sz * 4 + sum_list (map (need_at dladdr array) [0..<nat sz])"
proof -
  let ?need = "sum_list (map (need_at dladdr array) [0..<nat sz])"
  have tab: "(of_int sz * 4 :: size_t) = of_nat (nat sz * 4)"
    using sz by simp
  have req: "request_size dladdr array sz = of_nat (nat sz * 4 + ?need)"
    by (simp only: request_size_def total_size_eq tab sum_sizes_of_nat of_nat_add)
  show ?thesis
    unfolding req by (rule unat_of_nat32) (use fits in simp)
qed

lemma block_fits:
  assumes sz: "0 \<le> sz"
    and fits: "nat sz * 4 + sum_list (map (need_at dladdr array) [0..<nat sz]) < 2 ^ 32"
    and ok: "malloc (request_size dladdr array sz)"
  shows "backtrace_symbols dladdr malloc array sz =
           Returned (Some \<lparr>strings = map (line_at dladdr array) [0..<nat sz],
                           requested = request_size dladdr array sz,
                           cursor = used_size dladdr array sz\<rparr>)"
proof -
  have "used_size dladdr array sz
      \<le> nat sz * 4 + sum_list (map (need_at dladdr array) [0..<nat sz])"
    using sum_lines_le [of dladdr array "[0..<nat sz]"] by (simp add: used_size_def)
  then have "used_size dladdr array sz \<le> unat (request_size dladdr array sz)"
    by (simp only: request_unwrapped [OF sz fits])
  then show ?thesis
    using ok by (simp add: backtrace_symbols_eq)
qed

subsection \<open>What the block holds\<close>

lemma map_index: "map (\<lambda>i. g (array ! i)) [0..<length array] = map g array"
proof -
  have "map g (map (\<lambda>i. array ! i) [0..<length array]) = map g array"
    by (simp only: map_nth)
  then show ?thesis by (simp add: comp_def)
qed

lemma need_sum:
  "sum_list (map (need_at dladdr array) [0..<length array])
     = (\<Sum>a\<leftarrow>array. line_need (fst (dladdr a)) (snd (dladdr a)))"
proof -
  have "map (need_at dladdr array) [0..<length array]
      = map (\<lambda>i. line_need (fst (dladdr (array ! i))) (snd (dladdr (array ! i)))) [0..<length array]"
    by (simp add: need_at_def [abs_def])
  also have "\<dots> = map (\<lambda>a. line_need (fst (dladdr a)) (snd (dladdr a))) array"
    by (rule map_index)
  finally show ?thesis by simp
qed

lemma block_strings:
  assumes "backtrace_symbols dladdr malloc array (int (length array)) = Returned (Some blk)"
  shows "length (strings blk) = length array"
    and "i < length array \<Longrightarrow>
         strings blk ! i = format_line (array ! i) (fst (dladdr (array ! i))) (snd (dladdr (array ! i)))"
  using backtrace_symbols_Some(1) [OF assms] by (simp_all add: line_at_def)

text \<open>The sample: five addresses, one line of each kind.\<close>

lemma upt5: "[0..<5] = [0, 1, 2, 3, 4]"
  by (simp add: upt_conv_Cons)

lemma sample_sizes:
  "request_size sample_dladdr sample_array 5 = 202"
  "used_size sample_dladdr sample_array 5 = 170"
  "map (line_at sample_dladdr sample_array) [0..<5] = sample_lines"
  by (simp_all add: request_size_def used_size_def total_size_eq upt5 line_at_def size_at_def
      sample_dladdr_def sample_array_def sample_lines_def main_info_def libc_info_def null_info_def
      format_line_def line_size_def strlen_def WORD_WIDTH_def
      have_info_def or_empty_def offset_buf_def fmt_lx_alt_def fmt_p_def hex_str.simps
      digit_char_def Let_def)

lemma sample_block:
  "backtrace_symbols sample_dladdr always_malloc sample_array (int (length sample_array)) =
     Returned (Some \<lparr>strings = sample_lines, requested = 202, cursor = 170\<rparr>)"
proof -
  have n: "int (length sample_array) = 5"
    by (simp add: sample_array_def)
  have "used_size sample_dladdr sample_array 5 \<le> unat (request_size sample_dladdr sample_array 5)"
    by (simp add: sample_sizes)
  then show ?thesis
    unfolding n by (simp add: backtrace_symbols_eq always_malloc_def sample_sizes)
qed

text \<open>
  C6. Every line of the block has one of three forms: module path, symbol name with
  signed offset in parentheses, and the address in brackets when \<^verbatim>\<open>dladdr\<close> gives a
  non-empty module path and a symbol name; module path and the address in brackets when
  it gives a path but no symbol name; the address in brackets alone otherwise.
\<close>

theorem symbol_line_forms:
  assumes res: "backtrace_symbols dladdr malloc array (int (length array)) = Returned (Some blk)"
    and i: "i < length array"
    and d: "dladdr (array ! i) = (st, di)"
  shows "strings blk ! i =
     (if have_info st di
      then (case dli_sname di of
              Some sname \<Rightarrow> the (dli_fname di) @ ''('' @ sname @ offset_buf (array ! i) di
                              @ '') ['' @ fmt_p (array ! i) @ '']''
            | None \<Rightarrow> the (dli_fname di) @ '' ['' @ fmt_p (array ! i) @ '']'')
      else ''['' @ fmt_p (array ! i) @ '']'')"
  using block_strings(2) [OF res i] d
  by (auto simp add: format_line_def have_info_def or_empty_def Let_def split: option.splits)

theorem symbol_line_forms_witness:
  "backtrace_symbols sample_dladdr always_malloc sample_array (int (length sample_array))
     = Returned (Some \<lparr>strings = sample_lines, requested = 202, cursor = 170\<rparr>)
   \<and> sample_lines ! 0 = ''./driver_manager'' @ ''('' @ ''main'' @ offset_buf 0x44a3ec main_info
                           @ '') ['' @ fmt_p 0x44a3ec @ '']''
   \<and> sample_lines ! 3 = ''/lib/libc.so.0'' @ '' ['' @ fmt_p 0x2ac7b4d4 @ '']''
   \<and> sample_lines ! 4 = ''['' @ fmt_p 0x10 @ '']''"
proof -
  have d0: "sample_dladdr (sample_array ! 0) = (1, main_info)"
    and d3: "sample_dladdr (sample_array ! 3) = (1, libc_info)"
    and d4: "sample_dladdr (sample_array ! 4) = (0, null_info)"
    by (simp_all add: sample_dladdr_def sample_array_def)
  have "0 < length sample_array" "3 < length sample_array" "4 < length sample_array"
    by (simp_all add: sample_array_def)
  then show ?thesis
    using symbol_line_forms [OF sample_block _ d0] symbol_line_forms [OF sample_block _ d3]
      symbol_line_forms [OF sample_block _ d4] sample_block
    by (simp add: have_info_def main_info_def libc_info_def null_info_def sample_array_def)
qed

text \<open>
  C5, as stated, fails at the symbol's own address: \<^verbatim>\<open>%#lx\<close> prints the value zero as
  \<^verbatim>\<open>0\<close>, without \<^verbatim>\<open>0x\<close>, so the offset text there is \<^verbatim>\<open>+0\<close>.
\<close>

theorem symbol_offset_at_base:
  "lines_of (backtrace_symbols sample_dladdr always_malloc [0x449ba4] 1)
     = Some [''./driver_manager(main+0) [0x449ba4]'']
   \<and> offset_buf 0x449ba4 main_info = ''+0''"
proof -
  have sizes: "request_size sample_dladdr [0x449ba4] 1 = 51"
    "used_size sample_dladdr [0x449ba4] 1 = 40"
    "line_at sample_dladdr [0x449ba4] 0 = ''./driver_manager(main+0) [0x449ba4]''"
    by (simp_all add: request_size_def used_size_def total_size_eq line_at_def size_at_def
      upt_conv_Cons sample_dladdr_def main_info_def format_line_def line_size_def strlen_def WORD_WIDTH_def
      have_info_def or_empty_def offset_buf_def fmt_lx_alt_def fmt_p_def hex_str.simps
      digit_char_def Let_def)
  have "used_size sample_dladdr [0x449ba4] 1 \<le> unat (request_size sample_dladdr [0x449ba4] 1)"
    by (simp add: sizes)
  then have "backtrace_symbols sample_dladdr always_malloc [0x449ba4] 1 =
      Returned (Some \<lparr>strings = [''./driver_manager(main+0) [0x449ba4]''], requested = 51,
                      cursor = 40\<rparr>)"
    by (simp add: backtrace_symbols_eq always_malloc_def sizes)
  moreover have "offset_buf 0x449ba4 main_info = ''+0''"
    by (simp add: offset_buf_def main_info_def fmt_lx_alt_def)
  ultimately show ?thesis
    by (simp add: lines_of_def)
qed

text \<open>
  C5, amended. For an address whose module and symbol resolve, the offset text is
  \<^verbatim>\<open>+0x\<close> and the distance in hexadecimal when the address lies after the symbol's
  address, \<^verbatim>\<open>+0\<close> when it is the symbol's address, and \<^verbatim>\<open>-0x\<close> and the distance in
  hexadecimal when it lies before.
\<close>

theorem symbol_offset_sign:
  assumes res: "backtrace_symbols dladdr malloc array (int (length array)) = Returned (Some blk)"
    and i: "i < length array"
    and d: "dladdr (array ! i) = (st, di)"
    and h: "have_info st di"
    and n: "dli_sname di = Some sname"
  shows "(dli_saddr di < array ! i \<longrightarrow>
            strings blk ! i = the (dli_fname di) @ ''('' @ sname @ ''+0x''
              @ hex_str (unat (array ! i) - unat (dli_saddr di)) @ '') ['' @ fmt_p (array ! i) @ '']'')
       \<and> (dli_saddr di = array ! i \<longrightarrow>
            strings blk ! i = the (dli_fname di) @ ''('' @ sname @ ''+0''
              @ '') ['' @ fmt_p (array ! i) @ '']'')
       \<and> (array ! i < dli_saddr di \<longrightarrow>
            strings blk ! i = the (dli_fname di) @ ''('' @ sname @ ''-0x''
              @ hex_str (unat (dli_saddr di) - unat (array ! i)) @ '') ['' @ fmt_p (array ! i) @ '']'')"
proof -
  let ?a = "array ! i" and ?b = "dli_saddr di"
  have line: "strings blk ! i = the (dli_fname di) @ ''('' @ sname @ offset_buf ?a di
                @ '') ['' @ fmt_p ?a @ '']''"
    using block_strings(2) [OF res i] d h n
    by (simp add: format_line_def have_info_def or_empty_def Let_def split: option.splits)
  have after: "offset_buf ?a di = ''+0x'' @ hex_str (unat ?a - unat ?b)" if "?b < ?a"
    using that by (auto simp add: offset_buf_def fmt_lx_alt_def unat_sub)
  have at: "offset_buf ?a di = ''+0''" if "?b = ?a"
    using that by (simp add: offset_buf_def fmt_lx_alt_def)
  have before: "offset_buf ?a di = ''-0x'' @ hex_str (unat ?b - unat ?a)" if "?a < ?b"
    using that by (auto simp add: offset_buf_def fmt_lx_alt_def unat_sub)
  show ?thesis
    using line after at before by simp
qed

theorem symbol_offset_sign_witness:
  "backtrace_symbols sample_dladdr always_malloc sample_array (int (length sample_array))
     = Returned (Some \<lparr>strings = sample_lines, requested = 202, cursor = 170\<rparr>)
   \<and> sample_lines ! 0 = ''./driver_manager'' @ ''('' @ ''main'' @ ''+0x'' @ hex_str 2120
                           @ '') ['' @ fmt_p 0x44a3ec @ '']''
   \<and> sample_lines ! 1 = ''./driver_manager'' @ ''('' @ ''main'' @ ''+0''
                           @ '') ['' @ fmt_p 0x449ba4 @ '']''
   \<and> sample_lines ! 2 = ''./driver_manager'' @ ''('' @ ''main'' @ ''-0x'' @ hex_str 164
                           @ '') ['' @ fmt_p 0x449b00 @ '']''"
proof -
  have d: "sample_dladdr (sample_array ! 0) = (1, main_info)"
    "sample_dladdr (sample_array ! 1) = (1, main_info)"
    "sample_dladdr (sample_array ! 2) = (1, main_info)"
    by (simp_all add: sample_dladdr_def sample_array_def)
  have h: "have_info 1 main_info" and n: "dli_sname main_info = Some ''main''"
    by (simp_all add: have_info_def main_info_def)
  have "0 < length sample_array" "1 < length sample_array" "2 < length sample_array"
    by (simp_all add: sample_array_def)
  then show ?thesis
    using symbol_offset_sign [OF sample_block _ d(1) h n]
      symbol_offset_sign [OF sample_block _ d(2) h n]
      symbol_offset_sign [OF sample_block _ d(3) h n] sample_block
    by (simp add: main_info_def sample_array_def)
qed

subsection \<open>The block against its size\<close>

text \<open>
  Without wrap-around the pre-sizing is safe: the size reserved for a line is at least
  the line with its NUL, and where the pointer table and the reserved sizes together
  stay below \<open>2 ^ 32\<close> and \<^verbatim>\<open>malloc\<close> succeeds, the block is returned with the cursor
  inside it and holds one line for each address, in order.
\<close>

lemma unwrapped_block_returned:
  assumes fits: "4 * length array + (\<Sum>a\<leftarrow>array. line_need (fst (dladdr a)) (snd (dladdr a))) < 2 ^ 32"
    and ok: "malloc (request_size dladdr array (int (length array)))"
  shows "\<exists>blk. backtrace_symbols dladdr malloc array (int (length array)) = Returned (Some blk)
           \<and> cursor blk \<le> unat (requested blk)
           \<and> length (strings blk) = length array
           \<and> (\<forall>i<length array.
                 strings blk ! i
                   = format_line (array ! i) (fst (dladdr (array ! i))) (snd (dladdr (array ! i)))
                 \<and> Suc (length (strings blk ! i))
                     \<le> line_need (fst (dladdr (array ! i))) (snd (dladdr (array ! i))))"
proof -
  have "nat (int (length array)) * 4
          + sum_list (map (need_at dladdr array) [0..<nat (int (length array))]) < 2 ^ 32"
    using fits by (simp add: need_sum)
  then have res: "backtrace_symbols dladdr malloc array (int (length array)) =
      Returned (Some \<lparr>strings = map (line_at dladdr array) [0..<nat (int (length array))],
                      requested = request_size dladdr array (int (length array)),
                      cursor = used_size dladdr array (int (length array))\<rparr>)"
    using ok by (intro block_fits) simp_all
  show ?thesis
    using res backtrace_symbols_Some(4) [OF res] block_strings [OF res]
    by (simp add: format_line_fits)
qed

text \<open>The deep recursion: sizes that wrap.\<close>

lemma sum_list_const_upt:
  fixes f :: "nat \<Rightarrow> 'a :: semiring_1"
  assumes "\<And>i. i < n \<Longrightarrow> f i = c"
  shows "sum_list (map f [0..<n]) = of_nat n * c"
proof -
  have "map f [0..<n] = map (\<lambda>i. c) [0..<n]"
    by (rule map_cong) (simp_all add: assms)
  then show ?thesis
    by (simp add: map_replicate_const sum_list_replicate)
qed

lemma deep_line_size: "line_size 1 deep_info = 65536"
  by (simp add: line_size_def have_info_def deep_info_def strlen_def or_empty_def
      WORD_WIDTH_def long_name_def)

lemma deep_line_length: "length (format_line 0x400010 1 deep_info) = 65527"
  by (simp add: format_line_def have_info_def deep_info_def or_empty_def offset_buf_def
      fmt_lx_alt_def fmt_p_def hex_str.simps digit_char_def long_name_def Let_def)

lemma deep_total: "total_size deep_dladdr deep_array 65536 = 0"
proof -
  have "sum_list (map (size_at deep_dladdr deep_array) [0..<65536]) = of_nat 65536 * (65536 :: size_t)"
    by (rule sum_list_const_upt) (simp add: size_at_def deep_dladdr_def deep_line_size)
  then show ?thesis by (simp add: total_size_eq)
qed

lemma deep_request: "request_size deep_dladdr deep_array 65536 = 262144"
  by (simp add: request_size_def deep_total)

lemma deep_first_store:
  "write_lines deep_array 65536
     (map (\<lambda>i. fst (deep_dladdr (deep_array ! i))) [0..<65536])
     (map (\<lambda>i. snd (deep_dladdr (deep_array ! i))) [0..<65536])
     262144 0 [] 262144 = Inl 0"
  by (subst write_lines.simps)
    (simp add: deep_dladdr_def deep_array_def deep_line_length del: upt_Suc)

lemma deep_overrun: "backtrace_symbols deep_dladdr always_malloc deep_array 65536 = Overrun 0"
  by (simp add: backtrace_symbols_unfold deep_request always_malloc_def deep_first_store
      del: upt_Suc)

text \<open>
  C1. The code does not keep the claim: \<^verbatim>\<open>total\<close> and the argument of \<^verbatim>\<open>malloc\<close> are
  unchecked \<^verbatim>\<open>size_t\<close> sums. Each of the 65536 lines of the deep recursion reserves
  65536 bytes, \<^verbatim>\<open>total\<close> wraps to 0, and \<^verbatim>\<open>malloc\<close> is asked for 262144 bytes, which the
  pointer table fills. The first line and its NUL, 65528 bytes, are written at offset
  262144, the end of the block: the write pass exceeds the capacity with its first
  line, and the \<^verbatim>\<open>assert\<close> is not reached.
\<close>

theorem presized_block_overrun:
  "length deep_array = 65536
   \<and> line_size 1 deep_info = 65536
   \<and> total_size deep_dladdr deep_array 65536 = 0
   \<and> request_size deep_dladdr deep_array 65536 = 262144
   \<and> 4 * length deep_array = 262144
   \<and> 1 + length (line_at deep_dladdr deep_array 0) = 65528
   \<and> backtrace_symbols deep_dladdr always_malloc deep_array 65536 = Overrun 0"
proof -
  have "length deep_array = 65536"
    by (simp add: deep_array_def)
  moreover have "1 + length (line_at deep_dladdr deep_array 0) = 65528"
    by (simp add: line_at_def deep_dladdr_def deep_array_def deep_line_length)
  ultimately show ?thesis
    by (simp add: deep_line_size deep_total deep_request deep_overrun)
qed

text \<open>
  C8. The code does not keep the claim either, by the same wrap-around: for the 65536
  addresses of the deep recursion the allocation succeeds, yet \<^verbatim>\<open>backtrace_symbols\<close>
  returns neither the 65536 lines nor the null pointer; its write pass leaves the
  block at the first line.
\<close>

theorem backtrace_symbols_lines_lost:
  "always_malloc (request_size deep_dladdr deep_array (int (length deep_array)))
   \<and> lines_of (backtrace_symbols deep_dladdr always_malloc deep_array (int (length deep_array)))
       = None
   \<and> backtrace_symbols deep_dladdr always_malloc deep_array (int (length deep_array))
       \<noteq> Returned None
   \<and> (\<forall>blk. backtrace_symbols deep_dladdr always_malloc deep_array (int (length deep_array))
          \<noteq> Returned (Some blk))"
proof -
  have n: "int (length deep_array) = 65536"
    by (simp add: deep_array_def)
  show ?thesis
    unfolding n by (simp add: deep_overrun always_malloc_def lines_of_def)
qed


section \<open>The logger and the reporter\<close>

text \<open>
  C9. If the sink is unspecified, or the level mask is \<^verbatim>\<open>LOG_DISABLED\<close>, or the bit of
  the message's level is not set in the mask, \<^verbatim>\<open>log_log\<close> writes nothing: the
  configuration and everything written so far stay as they were, and the mutex, taken
  on entry, is released.
\<close>

theorem log_log_discards:
  assumes "sink (Config s) = LOG_SINK_UNSPECIFIED \<or> level_mask (Config s) = LOG_DISABLED
           \<or> (level_mask (Config s) AND level) = 0"
  shows "log_log level src line msg time_str s = s\<lparr>cfg_mtx := False\<rparr>"
  using assms by (auto simp add: log_log_def lock_def unlock_def Let_def)

theorem log_log_discards_witness:
  "sink (Config initial_log) = LOG_SINK_UNSPECIFIED
   \<and> log_log LOG_LEVEL_ERROR ''backtrace.c'' 26 ''text'' ''now'' initial_log = initial_log
   \<and> (level_mask (Config file_log) AND LOG_LEVEL_DEBUG) = 0
   \<and> log_log LOG_LEVEL_DEBUG ''backtrace.c'' 26 ''text'' ''now'' file_log = file_log"
  using log_log_discards [of initial_log LOG_LEVEL_ERROR "''backtrace.c''" 26 "''text''" "''now''"]
    log_log_discards [of file_log LOG_LEVEL_DEBUG "''backtrace.c''" 26 "''text''" "''now''"]
  by (simp add: initial_log_def file_log_def LOG_LEVEL_DEBUG_def LOG_LEVEL_WARN_def
      LOG_LEVEL_ERROR_def)

text \<open>A message that passes the tests is written: prefix, text and newline.\<close>

lemma log_log_writes:
  "written (log_log LOG_LEVEL_ERROR ''backtrace.c'' 26 ''text'' ''now'' file_log)
     = [File_write 2 ''now [ERROR] [app] backtrace.c:26: '', File_write 2 ''text'',
        File_write 2 [CHR 0x0A]]"
  by (simp add: log_log_def lock_def unlock_def Let_def file_log_def log_to_file_def
      LOG_LEVEL_DEBUG_def LOG_LEVEL_WARN_def LOG_LEVEL_ERROR_def LOG_LEVEL_INFO_def
      LOG_DISABLED_def get_level_label_def level_labels_def fmt_s_left5_def fmt_d_def
      dec_str.simps digit_char_def)

subsection \<open>The report without symbols\<close>

lemma report_frames_fallback:
  "0 \<le> i \<Longrightarrow>
   report_frames log_level tm buffer None nptrs i s =
     foldl (\<lambda>s' j. LOG log_level 31 (frame_text (int j) (fmt_p (buffer j))) (tm (j + 1)) s')
       s [nat i..<nat nptrs]"
proof (induction log_level tm buffer "None :: string list option" nptrs i s rule: report_frames.induct)
  case (1 log_level tm buffer nptrs i s)
  show ?case
  proof (cases "i < nptrs")
    case False
    then have "nat nptrs \<le> nat i" by simp
    then have "[nat i..<nat nptrs] = []" by simp
    with False show ?thesis
      by (subst report_frames.simps) simp
  next
    case True
    have up: "[nat i..<nat nptrs] = nat i # [nat (i + 1)..<nat nptrs]"
      using True "1.prems" by (simp add: upt_conv_Cons nat_add_distrib)
    have ih: "report_frames log_level tm buffer None nptrs (i + 1)
        (LOG log_level 31 (frame_text i (fmt_p (buffer (nat i)))) (tm (nat i + 1)) s)
      = foldl (\<lambda>s' j. LOG log_level 31 (frame_text (int j) (fmt_p (buffer j))) (tm (j + 1)) s')
         (LOG log_level 31 (frame_text i (fmt_p (buffer (nat i)))) (tm (nat i + 1)) s)
         [nat (i + 1)..<nat nptrs]"
      using "1.hyps" [OF True] "1.prems" by simp
    show ?thesis
      apply (subst report_frames.simps)
      apply (simp only: True if_True option.case ih up foldl_Cons)
      using "1.prems" apply simp
      done
  qed
qed

lemma demo_fallback_written:
  "written (fallback_report fixed_clock LOG_LEVEL_ERROR demo_frames 2 file_log)
     = [File_write 2 ''2007-01-01 00:00:00.000 [ERROR] [app] backtrace.c:26: '',
        File_write 2 ''Stack trace: 2 frames (most recent call first)'',
        File_write 2 [CHR 0x0A],
        File_write 2 ''2007-01-01 00:00:00.000 [ERROR] [app] backtrace.c:31: '',
        File_write 2 ([CHR 0x09] @ ''#00 0x400010''),
        File_write 2 [CHR 0x0A],
        File_write 2 ''2007-01-01 00:00:00.000 [ERROR] [app] backtrace.c:31: '',
        File_write 2 ([CHR 0x09] @ ''#01 0x400210''),
        File_write 2 [CHR 0x0A]]"
  by (simp add: fallback_report_def upt_conv_Cons LOG_def log_log_def lock_def unlock_def Let_def
      file_log_def log_to_file_def fixed_clock_def demo_frames_def blank_buffer_def
      header_text_def frame_text_def fmt_02d_def fmt_p_def hex_str.simps
      LOG_LEVEL_DEBUG_def LOG_LEVEL_WARN_def LOG_LEVEL_ERROR_def LOG_LEVEL_INFO_def
      LOG_DISABLED_def get_level_label_def level_labels_def fmt_s_left5_def fmt_d_def
      dec_str.simps digit_char_def)

text \<open>
  C4. When \<^verbatim>\<open>malloc\<close> fails, \<^verbatim>\<open>backtrace_symbols\<close> returns the null pointer and
  nothing else. \<^verbatim>\<open>print_stack_trace\<close>, once the capture has returned, then sends the
  header and one message per frame with the bare address to the logger and returns;
  the address is printed by \<^verbatim>\<open>%p\<close>, the conversion that the formatter's line of
  last resort uses between its brackets.
\<close>

theorem allocation_failure_report:
  assumes cap: "backtrace_mips32 mem entry ra sp (Some buffer0) 64 = Return (Some buffer) nptrs"
    and fail: "\<not> malloc (of_int nptrs * 4 + total_size dladdr (map buffer [0..<64]) nptrs)"
  shows "backtrace_symbols dladdr malloc (map buffer [0..<64]) nptrs = Returned None
         \<and> print_stack_trace mem entry ra sp buffer0 dladdr malloc tm log_level s
             = Some (fallback_report tm log_level buffer nptrs s)
         \<and> (\<forall>a st di. \<not> have_info st di \<longrightarrow> format_line a st di = ''['' @ fmt_p a @ '']'')"
proof -
  have none: "backtrace_symbols dladdr malloc (map buffer [0..<64]) nptrs = Returned None"
    using fail by (simp add: backtrace_symbols_None request_size_def)
  have "print_stack_trace mem entry ra sp buffer0 dladdr malloc tm log_level s
      = Some (report_frames log_level tm buffer None nptrs 0
               (LOG log_level 26 (header_text nptrs) (tm 0) s))"
    by (simp add: print_stack_trace_def cap none Let_def)
  also have "\<dots> = Some (fallback_report tm log_level buffer nptrs s)"
    by (simp add: report_frames_fallback fallback_report_def)
  finally have report: "print_stack_trace mem entry ra sp buffer0 dladdr malloc tm log_level s
      = Some (fallback_report tm log_level buffer nptrs s)" .
  have "format_line a st di = ''['' @ fmt_p a @ '']''" if "\<not> have_info st di" for a st di
    using that by (simp add: format_line_def)
  with none report show ?thesis by blast
qed

lemma demo_capture_frames:
  "backtrace_mips32 demo_mem 0x400100 0x400010 0x7fff0000 (Some blank_buffer) 64
     = Return (Some demo_frames) 2"
  by (simp add: demo_capture demo_frames_def)

theorem allocation_failure_report_witness:
  "backtrace_mips32 demo_mem 0x400100 0x400010 0x7fff0000 (Some blank_buffer) 64
     = Return (Some demo_frames) 2
   \<and> \<not> never_malloc (of_int 2 * 4 + total_size sample_dladdr (map demo_frames [0..<64]) 2)
   \<and> backtrace_symbols sample_dladdr never_malloc (map demo_frames [0..<64]) 2 = Returned None
   \<and> map_option written
        (print_stack_trace demo_mem 0x400100 0x400010 0x7fff0000 blank_buffer sample_dladdr
           never_malloc fixed_clock LOG_LEVEL_ERROR file_log)
       = Some [File_write 2 ''2007-01-01 00:00:00.000 [ERROR] [app] backtrace.c:26: '',
               File_write 2 ''Stack trace: 2 frames (most recent call first)'',
               File_write 2 [CHR 0x0A],
               File_write 2 ''2007-01-01 00:00:00.000 [ERROR] [app] backtrace.c:31: '',
               File_write 2 ([CHR 0x09] @ ''#00 0x400010''),
               File_write 2 [CHR 0x0A],
               File_write 2 ''2007-01-01 00:00:00.000 [ERROR] [app] backtrace.c:31: '',
               File_write 2 ([CHR 0x09] @ ''#01 0x400210''),
               File_write 2 [CHR 0x0A]]"
proof -
  have fail: "\<not> never_malloc (of_int 2 * 4 + total_size sample_dladdr (map demo_frames [0..<64]) 2)"
    by (simp add: never_malloc_def)
  show ?thesis
    using allocation_failure_report [where malloc = never_malloc and dladdr = sample_dladdr
        and buffer = demo_frames and nptrs = 2 and tm = fixed_clock
        and log_level = LOG_LEVEL_ERROR and s = file_log, OF demo_capture_frames fail]
      demo_capture_frames fail
    by (simp add: demo_fallback_written)
qed


end
